theory Spec2Isabelle
  imports Main
begin

section \<open>Python values, exceptions and strings\<close>

text \<open>
  The gateway \<^verbatim>\<open>app.py\<close> is dynamically typed Python. A Python \<^verbatim>\<open>str\<close> is a sequence of
  Unicode code points, so a string is a list of code points (natural numbers); \<open>ustr\<close>
  turns an ASCII literal into such a list. The values that reach the handler are the ones
  JSON can carry: \<^verbatim>\<open>None\<close>, booleans, integers, floats, strings, lists and dictionaries with
  string keys. A dictionary keeps its insertion order, so it is an association list.

  A float is kept as the decimal literal handed to \<^verbatim>\<open>float()\<close>: the decoder accepts and
  rejects exactly the same texts, and no arithmetic is ever done on the number.
\<close>

type_synonym pystr = "nat list"

definition ustr :: "string \<Rightarrow> pystr" where
  "ustr s = map of_char s"

datatype pyval =
    PNone
  | PBool bool
  | PInt int
  | PFloat pystr
  | PStr pystr
  | PList "pyval list"
  | PDict "(pystr \<times> pyval) list"

text \<open>
  Exceptions are values. \<open>RaisedException\<close> stands for any other exception derived from
  \<^verbatim>\<open>Exception\<close> that a collaborator (the pipeline, the web framework) raises, with its
  \<^verbatim>\<open>str()\<close>; \<open>RaisedBaseException\<close> for the ones that are not derived from \<^verbatim>\<open>Exception\<close>
  (\<^verbatim>\<open>KeyboardInterrupt\<close>, \<^verbatim>\<open>SystemExit\<close>), which \<^verbatim>\<open>except Exception\<close> does not catch.
\<close>

datatype pyexn =
    JSONDecodeError pystr
  | AttributeError pystr
  | TypeError pystr
  | RaisedException pystr
  | RaisedBaseException pystr

fun is_Exception :: "pyexn \<Rightarrow> bool" where
  "is_Exception (RaisedBaseException m) = False"
| "is_Exception e = True"

fun exn_str :: "pyexn \<Rightarrow> pystr" where
  "exn_str (JSONDecodeError m) = m"
| "exn_str (AttributeError m) = m"
| "exn_str (TypeError m) = m"
| "exn_str (RaisedException m) = m"
| "exn_str (RaisedBaseException m) = m"

fun type_name :: "pyval \<Rightarrow> pystr" where
  "type_name PNone = ustr ''NoneType''"
| "type_name (PBool b) = ustr ''bool''"
| "type_name (PInt i) = ustr ''int''"
| "type_name (PFloat f) = ustr ''float''"
| "type_name (PStr s) = ustr ''str''"
| "type_name (PList xs) = ustr ''list''"
| "type_name (PDict d) = ustr ''dict''"

text \<open>The message of the \<^verbatim>\<open>AttributeError\<close> for a method the object does not have.\<close>

definition no_attribute :: "pyval \<Rightarrow> pystr \<Rightarrow> pyexn" where
  "no_attribute v name =
     AttributeError (0x27 # type_name v @ 0x27 # ustr '' object has no attribute '' @ 0x27 # name @ [0x27])"

subsection \<open>\<^verbatim>\<open>str.replace\<close>\<close>

text \<open>
  \<^verbatim>\<open>s.replace(old, new)\<close> scans from the left and replaces every non-overlapping occurrence.
  With an empty \<open>old\<close> Python inserts \<open>new\<close> before every character and at the end.
\<close>

fun str_replace :: "pystr \<Rightarrow> pystr \<Rightarrow> pystr \<Rightarrow> pystr" where
  "str_replace old new [] = (if old = [] then new else [])"
| "str_replace old new (c # cs) =
     (if old = [] then new @ c # str_replace old new cs
      else if take (length old) (c # cs) = old
        then new @ str_replace old new (drop (length old) (c # cs))
      else c # str_replace old new cs)"

fun py_replace :: "pyval \<Rightarrow> pystr \<Rightarrow> pystr \<Rightarrow> pyexn + pyval" where
  "py_replace (PStr s) old new = Inr (PStr (str_replace old new s))"
| "py_replace v old new = Inl (no_attribute v (ustr ''replace''))"

subsection \<open>\<^verbatim>\<open>str.strip\<close>\<close>

text \<open>The code points for which \<^verbatim>\<open>str.isspace\<close> holds; \<^verbatim>\<open>strip()\<close> removes them at both ends.\<close>

definition isspace :: "nat \<Rightarrow> bool" where
  "isspace c =
     ((0x09 \<le> c \<and> c \<le> 0x0D) \<or> (0x1C \<le> c \<and> c \<le> 0x20) \<or> c = 0x85 \<or> c = 0xA0
      \<or> c = 0x1680 \<or> (0x2000 \<le> c \<and> c \<le> 0x200A) \<or> c = 0x2028 \<or> c = 0x2029
      \<or> c = 0x202F \<or> c = 0x205F \<or> c = 0x3000)"

definition str_strip :: "pystr \<Rightarrow> pystr" where
  "str_strip s = rev (dropWhile isspace (rev (dropWhile isspace s)))"

fun py_strip :: "pyval \<Rightarrow> pyexn + pystr" where
  "py_strip (PStr s) = Inr (str_strip s)"
| "py_strip v = Inl (no_attribute v (ustr ''strip''))"

subsection \<open>\<^verbatim>\<open>dict.get\<close>\<close>

fun dict_get :: "(pystr \<times> pyval) list \<Rightarrow> pystr \<Rightarrow> pyval \<Rightarrow> pyval" where
  "dict_get [] k dflt = dflt"
| "dict_get ((k', v) # d) k dflt = (if k' = k then v else dict_get d k dflt)"

fun py_get :: "pyval \<Rightarrow> pystr \<Rightarrow> pyval \<Rightarrow> pyexn + pyval" where
  "py_get (PDict d) k dflt = Inr (dict_get d k dflt)"
| "py_get v k dflt = Inl (no_attribute v (ustr ''get''))"

fun dict_setitem :: "(pystr \<times> pyval) list \<Rightarrow> pystr \<Rightarrow> pyval \<Rightarrow> (pystr \<times> pyval) list" where
  "dict_setitem [] k v = [(k, v)]"
| "dict_setitem ((k', v') # d) k v =
     (if k' = k then (k, v) # d else (k', v') # dict_setitem d k v)"

text \<open>\<^verbatim>\<open>dict(pairs)\<close>: a later pair with the same key overwrites the value and keeps the place.\<close>

definition dict_of_pairs :: "(pystr \<times> pyval) list \<Rightarrow> (pystr \<times> pyval) list" where
  "dict_of_pairs pairs = foldl (\<lambda>d kv. dict_setitem d (fst kv) (snd kv)) [] pairs"

section \<open>The JSON decoder behind \<^verbatim>\<open>json.loads\<close>\<close>

text \<open>
  \<^verbatim>\<open>json.loads\<close> is the standard library's decoder (\<^verbatim>\<open>json.decoder\<close>, \<^verbatim>\<open>json.scanner\<close>) with its
  default arguments: strict strings, \<^verbatim>\<open>int\<close> and \<^verbatim>\<open>float\<close> for numbers, and the three constants
  \<^verbatim>\<open>NaN\<close>, \<^verbatim>\<open>Infinity\<close> and \<^verbatim>\<open>-Infinity\<close> accepted. Each function below follows the library
  function of the same name and works on the rest of the text instead of an index into it.
  Every failure of the decoder is a \<^verbatim>\<open>JSONDecodeError\<close>; the interpreter's resource limits (the
  recursion limit, the limit on the digits of an integer) are not part of the model.
\<close>

definition is_ws :: "nat \<Rightarrow> bool" where
  "is_ws c = (c = 0x20 \<or> c = 0x09 \<or> c = 0x0A \<or> c = 0x0D)"

definition skip_ws :: "pystr \<Rightarrow> pystr" where
  "skip_ws s = dropWhile is_ws s"

definition is_digit :: "nat \<Rightarrow> bool" where
  "is_digit c = (0x30 \<le> c \<and> c \<le> 0x39)"

definition is_digit19 :: "nat \<Rightarrow> bool" where
  "is_digit19 c = (0x31 \<le> c \<and> c \<le> 0x39)"

subsection \<open>Strings\<close>

definition hexval :: "nat \<Rightarrow> nat option" where
  "hexval c =
     (if 0x30 \<le> c \<and> c \<le> 0x39 then Some (c - 0x30)
      else if 0x61 \<le> c \<and> c \<le> 0x66 then Some (c - 0x61 + 10)
      else if 0x41 \<le> c \<and> c \<le> 0x46 then Some (c - 0x41 + 10)
      else None)"

text \<open>The four hexadecimal digits after \<^verbatim>\<open>\u\<close>.\<close>

fun decode_uXXXX :: "pystr \<Rightarrow> nat option" where
  "decode_uXXXX (a # b # c # d # rest) =
     (case hexval a of None \<Rightarrow> None | Some x3 \<Rightarrow>
      (case hexval b of None \<Rightarrow> None | Some x2 \<Rightarrow>
       (case hexval c of None \<Rightarrow> None | Some x1 \<Rightarrow>
        (case hexval d of None \<Rightarrow> None | Some x0 \<Rightarrow>
           Some (((x3 * 16 + x2) * 16 + x1) * 16 + x0)))))"
| "decode_uXXXX s = None"

text \<open>The table \<^verbatim>\<open>BACKSLASH\<close> of the one-letter escapes.\<close>

definition BACKSLASH :: "nat \<Rightarrow> nat option" where
  "BACKSLASH esc =
     (if esc = 0x22 then Some 0x22
      else if esc = 0x5C then Some 0x5C
      else if esc = 0x2F then Some 0x2F
      else if esc = 0x62 then Some 0x08
      else if esc = 0x66 then Some 0x0C
      else if esc = 0x6E then Some 0x0A
      else if esc = 0x72 then Some 0x0D
      else if esc = 0x74 then Some 0x09
      else None)"

definition chunk :: "nat \<Rightarrow> pyexn + pystr \<times> pystr \<Rightarrow> pyexn + pystr \<times> pystr" where
  "chunk c r = (case r of Inl e \<Rightarrow> Inl e | Inr (s, rest) \<Rightarrow> Inr (c # s, rest))"

definition unterminated :: pyexn where
  "unterminated = JSONDecodeError (ustr ''Unterminated string starting at'')"

definition invalid_uXXXX :: pyexn where
  "invalid_uXXXX = JSONDecodeError (ustr ''Invalid '' @ 0x5C # ustr ''uXXXX escape'')"

definition invalid_escape :: pyexn where
  "invalid_escape = JSONDecodeError (ustr ''Invalid '' @ 0x5C # ustr ''escape'')"

definition invalid_control :: pyexn where
  "invalid_control = JSONDecodeError (ustr ''Invalid control character at'')"

text \<open>
  \<open>scanstring\<close> reads a string whose opening quote has been consumed and returns the decoded
  string and the text after the closing quote. A high surrogate escape directly followed by
  a low surrogate escape is one code point; \<open>(uni - 0xD800) * 1024 + (uni2 - 0xDC00)\<close> is
  Python's \<^verbatim>\<open>((uni - 0xd800) << 10) | (uni2 - 0xdc00)\<close>, the right operand being below \<open>2^10\<close>.
\<close>

fun scanstring :: "pystr \<Rightarrow> pyexn + pystr \<times> pystr" where
  "scanstring [] = Inl unterminated"
| "scanstring (c # cs) =
     (if c = 0x22 then Inr ([], cs)
      else if c = 0x5C then
        (case cs of
           [] \<Rightarrow> Inl unterminated
         | esc # cs' \<Rightarrow>
             if esc = 0x75 then
               (case decode_uXXXX cs' of
                  None \<Rightarrow> Inl invalid_uXXXX
                | Some uni \<Rightarrow>
                    if 0xD800 \<le> uni \<and> uni \<le> 0xDBFF \<and> take 2 (drop 4 cs') = [0x5C, 0x75] then
                      (case decode_uXXXX (drop 6 cs') of
                         None \<Rightarrow> Inl invalid_uXXXX
                       | Some uni2 \<Rightarrow>
                           if 0xDC00 \<le> uni2 \<and> uni2 \<le> 0xDFFF
                           then chunk (0x10000 + ((uni - 0xD800) * 1024 + (uni2 - 0xDC00)))
                                  (scanstring (drop 10 cs'))
                           else chunk uni (scanstring (drop 4 cs')))
                    else chunk uni (scanstring (drop 4 cs')))
             else
               (case BACKSLASH esc of
                  None \<Rightarrow> Inl invalid_escape
                | Some ch \<Rightarrow> chunk ch (scanstring cs')))
      else if c < 0x20 then Inl invalid_control
      else chunk c (scanstring cs))"

subsection \<open>Numbers\<close>

text \<open>
  \<^verbatim>\<open>NUMBER_RE = (-?(?:0|[1-9]\d*))(\.\d+)?([eE][-+]?\d+)?\<close>, matched at the start of the text: each
  function returns what its group matched and the text after it.
\<close>

fun match_digits :: "pystr \<Rightarrow> (pystr \<times> pystr) option" where
  "match_digits [] = None"
| "match_digits (d # ds) =
     (if d = 0x30 then Some ([d], ds)
      else if is_digit19 d then Some (d # takeWhile is_digit ds, dropWhile is_digit ds)
      else None)"

fun match_integer :: "pystr \<Rightarrow> (pystr \<times> pystr) option" where
  "match_integer [] = None"
| "match_integer (c # cs) =
     (if c = 0x2D then
        (case match_digits cs of None \<Rightarrow> None | Some (lit, rest) \<Rightarrow> Some (c # lit, rest))
      else match_digits (c # cs))"

fun match_frac :: "pystr \<Rightarrow> pystr \<times> pystr" where
  "match_frac (c # d # ds) =
     (if c = 0x2E \<and> is_digit d then (c # d # takeWhile is_digit ds, dropWhile is_digit ds)
      else ([], c # d # ds))"
| "match_frac s = ([], s)"

fun match_exp_tail :: "pystr \<Rightarrow> (pystr \<times> pystr) option" where
  "match_exp_tail [] = None"
| "match_exp_tail (c # cs) =
     (if c = 0x2D \<or> c = 0x2B then
        (case cs of
           [] \<Rightarrow> None
         | d # ds \<Rightarrow>
             if is_digit d then Some (c # d # takeWhile is_digit ds, dropWhile is_digit ds)
             else None)
      else if is_digit c then Some (c # takeWhile is_digit cs, dropWhile is_digit cs)
      else None)"

fun match_exp :: "pystr \<Rightarrow> pystr \<times> pystr" where
  "match_exp [] = ([], [])"
| "match_exp (e # s1) =
     (if e = 0x65 \<or> e = 0x45 then
        (case match_exp_tail s1 of
           None \<Rightarrow> ([], e # s1)
         | Some (lit, rest) \<Rightarrow> (e # lit, rest))
      else ([], e # s1))"

definition digits_nat :: "pystr \<Rightarrow> nat" where
  "digits_nat ds = foldl (\<lambda>n d. 10 * n + (d - 0x30)) 0 ds"

text \<open>\<^verbatim>\<open>int(integer)\<close> on the text the first group matched.\<close>

fun py_int :: "pystr \<Rightarrow> int" where
  "py_int [] = 0"
| "py_int (c # cs) = (if c = 0x2D then - int (digits_nat cs) else int (digits_nat (c # cs)))"

definition match_number :: "pystr \<Rightarrow> (pyval \<times> pystr) option" where
  "match_number s =
     (case match_integer s of
        None \<Rightarrow> None
      | Some (integer, s1) \<Rightarrow>
          (case match_frac s1 of (frac, s2) \<Rightarrow>
            (case match_exp s2 of (exp, s3) \<Rightarrow>
               if frac \<noteq> [] \<or> exp \<noteq> [] then Some (PFloat (integer @ frac @ exp), s3)
               else Some (PInt (py_int integer), s3))))"

subsection \<open>Values\<close>

definition expecting_value :: pyexn where
  "expecting_value = JSONDecodeError (ustr ''Expecting value'')"

definition expecting_name :: pyexn where
  "expecting_name = JSONDecodeError (ustr ''Expecting property name enclosed in double quotes'')"

definition expecting_colon :: pyexn where
  "expecting_colon = JSONDecodeError (ustr ''Expecting '' @ 0x27 # 0x3A # 0x27 # ustr '' delimiter'')"

definition expecting_comma :: pyexn where
  "expecting_comma = JSONDecodeError (ustr ''Expecting '' @ 0x27 # 0x2C # 0x27 # ustr '' delimiter'')"

text \<open>
  The branches of \<^verbatim>\<open>_scan_once\<close> that do not recurse, in its order: \<^verbatim>\<open>null\<close>, \<^verbatim>\<open>true\<close>,
  \<^verbatim>\<open>false\<close>, a number, \<^verbatim>\<open>NaN\<close>, \<^verbatim>\<open>Infinity\<close>, \<^verbatim>\<open>-Infinity\<close>.
\<close>

definition scan_constant :: "pystr \<Rightarrow> pyexn + pyval \<times> pystr" where
  "scan_constant s =
     (if take 4 s = ustr ''null'' then Inr (PNone, drop 4 s)
      else if take 4 s = ustr ''true'' then Inr (PBool True, drop 4 s)
      else if take 5 s = ustr ''false'' then Inr (PBool False, drop 5 s)
      else
        (case match_number s of
           Some r \<Rightarrow> Inr r
         | None \<Rightarrow>
             if take 3 s = ustr ''NaN'' then Inr (PFloat (ustr ''NaN''), drop 3 s)
             else if take 8 s = ustr ''Infinity'' then Inr (PFloat (ustr ''Infinity''), drop 8 s)
             else if take 9 s = ustr ''-Infinity'' then Inr (PFloat (ustr ''-Infinity''), drop 9 s)
             else Inl expecting_value))"

text \<open>
  \<open>scan_once\<close> is \<^verbatim>\<open>_scan_once\<close> with the headers of \<^verbatim>\<open>JSONObject\<close> and \<^verbatim>\<open>JSONArray\<close> (the
  look-ahead for the empty container); \<open>JSONArray_loop\<close> and \<open>JSONObject_loop\<close> are their
  \<^verbatim>\<open>while True\<close> loops, entered at a value and just after the opening quote of a key.
\<close>

function scan_once :: "pystr \<Rightarrow> pyexn + pyval \<times> pystr"
  and JSONArray_loop :: "pystr \<Rightarrow> pyexn + pyval list \<times> pystr"
  and JSONObject_loop :: "pystr \<Rightarrow> pyexn + (pystr \<times> pyval) list \<times> pystr"
where
  "scan_once s =
     (case s of
        [] \<Rightarrow> Inl expecting_value
      | c # cs \<Rightarrow>
          if c = 0x22 then
            (case scanstring cs of Inl e \<Rightarrow> Inl e | Inr (str, rest) \<Rightarrow> Inr (PStr str, rest))
          else if c = 0x7B then
            (case skip_ws cs of
               [] \<Rightarrow> Inl expecting_name
             | q # r \<Rightarrow>
                 if q = 0x7D then Inr (PDict [], r)
                 else if q = 0x22 then
                   (case JSONObject_loop r of
                      Inl e \<Rightarrow> Inl e
                    | Inr (pairs, rest) \<Rightarrow> Inr (PDict (dict_of_pairs pairs), rest))
                 else Inl expecting_name)
          else if c = 0x5B then
            (case skip_ws cs of
               [] \<Rightarrow> Inl expecting_value
             | q # r \<Rightarrow>
                 if q = 0x5D then Inr (PList [], r)
                 else
                   (case JSONArray_loop (q # r) of
                      Inl e \<Rightarrow> Inl e
                    | Inr (vals, rest) \<Rightarrow> Inr (PList vals, rest)))
          else scan_constant (c # cs))"
| "JSONArray_loop s =
     (case scan_once s of
        Inl e \<Rightarrow> Inl e
      | Inr (v, rest) \<Rightarrow>
          (case skip_ws rest of
             [] \<Rightarrow> Inl expecting_comma
           | d # r \<Rightarrow>
               if d = 0x5D then Inr ([v], r)
               else if d = 0x2C then
                 (case JSONArray_loop (skip_ws r) of
                    Inl e \<Rightarrow> Inl e
                  | Inr (vs, rest') \<Rightarrow> Inr (v # vs, rest'))
               else Inl expecting_comma))"
| "JSONObject_loop s =
     (case scanstring s of
        Inl e \<Rightarrow> Inl e
      | Inr (key, r1) \<Rightarrow>
          (case skip_ws r1 of
             [] \<Rightarrow> Inl expecting_colon
           | c # r2 \<Rightarrow>
               if c \<noteq> 0x3A then Inl expecting_colon
               else
                 (case scan_once (skip_ws r2) of
                    Inl e \<Rightarrow> Inl e
                  | Inr (v, r3) \<Rightarrow>
                      (case skip_ws r3 of
                         [] \<Rightarrow> Inl expecting_comma
                       | d # r4 \<Rightarrow>
                           if d = 0x7D then Inr ([(key, v)], r4)
                           else if d \<noteq> 0x2C then Inl expecting_comma
                           else
                             (case skip_ws r4 of
                                [] \<Rightarrow> Inl expecting_name
                              | q # r5 \<Rightarrow>
                                  if q \<noteq> 0x22 then Inl expecting_name
                                  else
                                    (case JSONObject_loop r5 of
                                       Inl e \<Rightarrow> Inl e
                                     | Inr (ps, r6) \<Rightarrow> Inr ((key, v) # ps, r6)))))))"
  by pat_completeness auto

text \<open>
  Termination: every function consumes text. For the loops this is a property of the result
  of the nested call, so it is proved on the domain of the functions first.
\<close>

lemma chunk_Inr: "chunk c r = Inr (s, rest) \<Longrightarrow> \<exists>s'. r = Inr (s', rest) \<and> s = c # s'"
  by (auto simp: chunk_def split: sum.splits)

lemma scanstring_length: "scanstring s = Inr (x, rest) \<Longrightarrow> length rest < length s"
proof (induction s arbitrary: x rule: scanstring.induct)
  case 1
  then show ?case by simp
next
  case (2 c cs)
  then show ?case
    by (fastforce split: if_splits list.splits option.splits dest!: chunk_Inr)
qed

lemma skip_ws_length: "length (skip_ws s) \<le> length s"
  by (simp add: skip_ws_def length_dropWhile_le)

lemma skip_ws_Cons_length: "skip_ws s = c # r \<Longrightarrow> length r < length s"
  using skip_ws_length [of s] by simp

lemma match_digits_app: "match_digits s = Some (lit, rest) \<Longrightarrow> s = lit @ rest \<and> lit \<noteq> []"
  by (cases s) (auto split: if_splits)

lemma match_integer_app: "match_integer s = Some (lit, rest) \<Longrightarrow> s = lit @ rest \<and> lit \<noteq> []"
  by (cases s) (auto split: if_splits option.splits dest: match_digits_app)

lemma match_frac_app: "match_frac s = (lit, rest) \<Longrightarrow> s = lit @ rest"
  by (induction s rule: match_frac.induct) (auto split: if_splits)

lemma match_exp_tail_app: "match_exp_tail s = Some (lit, rest) \<Longrightarrow> s = lit @ rest"
  by (cases s) (auto split: if_splits list.splits)

lemma match_exp_app: "match_exp s = (lit, rest) \<Longrightarrow> s = lit @ rest"
  by (cases s) (auto split: if_splits option.splits dest: match_exp_tail_app)

lemma match_number_length:
  assumes "match_number s = Some (v, rest)"
  shows "length rest < length s"
proof -
  from assms obtain i s1 f s2 e where
    m: "match_integer s = Some (i, s1)" "match_frac s1 = (f, s2)" "match_exp s2 = (e, rest)"
    by (auto simp: match_number_def split: option.splits prod.splits if_splits)
  from match_integer_app [OF m(1)] match_frac_app [OF m(2)] match_exp_app [OF m(3)]
  have "s = i @ f @ e @ rest" "i \<noteq> []" by simp_all
  then have "length s = length i + length f + length e + length rest" "0 < length i"
    by simp_all
  then show ?thesis by simp
qed

lemma scan_constant_length:
  assumes "scan_constant s = Inr (v, rest)"
  shows "length rest < length s"
proof -
  have nonempty: "s \<noteq> []"
    using assms by (auto simp: scan_constant_def match_number_def ustr_def expecting_value_def)
  show ?thesis
  proof (cases "match_number s")
    case (Some r)
    with assms nonempty show ?thesis
      by (auto simp: scan_constant_def dest: match_number_length split: if_splits)
  next
    case None
    with assms nonempty show ?thesis
      by (auto simp: scan_constant_def split: if_splits)
  qed
qed

lemma scan_length_partial:
  "scan_once_JSONArray_loop_JSONObject_loop_dom (Inl s) \<Longrightarrow>
     scan_once s = Inr (v, rest) \<Longrightarrow> length rest < length s"
  "scan_once_JSONArray_loop_JSONObject_loop_dom (Inr (Inl s1)) \<Longrightarrow>
     JSONArray_loop s1 = Inr (vs, rest1) \<Longrightarrow> length rest1 < length s1"
  "scan_once_JSONArray_loop_JSONObject_loop_dom (Inr (Inr s2)) \<Longrightarrow>
     JSONObject_loop s2 = Inr (ps, rest2) \<Longrightarrow> length rest2 < length s2"
proof (induct arbitrary: v rest and vs rest1 and ps rest2
    rule: scan_once_JSONArray_loop_JSONObject_loop.pinduct)
  case (1 s)
  note dom = "1.hyps"(1)
  note p = "1.prems" [unfolded scan_once.psimps [OF dom]]
  show ?case
  proof (cases s)
    case Nil
    with p show ?thesis by simp
  next
    case (Cons c cs)
    consider (str) "c = 0x22" | (obj) "c = 0x7B" | (arr) "c = 0x5B"
      | (const) "c \<noteq> 0x22" "c \<noteq> 0x7B" "c \<noteq> 0x5B" by blast
    then show ?thesis
    proof cases
      case str
      with p Cons show ?thesis
        by (auto split: sum.splits dest!: scanstring_length)
    next
      case obj
      show ?thesis
      proof (cases "skip_ws cs")
        case Nil
        with p Cons obj show ?thesis by simp
      next
        case (Cons q r)
        note sk = skip_ws_Cons_length [OF Cons]
        show ?thesis
        proof (cases "q = 0x7D")
          case True
          with p \<open>s = c # cs\<close> obj Cons sk show ?thesis
            by simp
        next
          case False
          with p \<open>s = c # cs\<close> obj Cons
          obtain pairs where q: "q = 0x22" and l: "JSONObject_loop r = Inr (pairs, rest)"
            by (auto split: if_splits sum.splits)
          from "1.hyps"(2) [OF \<open>s = c # cs\<close> _ obj Cons False q l] obj
          have "length rest < length r" by simp
          with sk \<open>s = c # cs\<close> show ?thesis by simp
        qed
      qed
    next
      case arr
      show ?thesis
      proof (cases "skip_ws cs")
        case Nil
        with p Cons arr show ?thesis by simp
      next
        case (Cons q r)
        note sk = skip_ws_Cons_length [OF Cons]
        show ?thesis
        proof (cases "q = 0x5D")
          case True
          with p \<open>s = c # cs\<close> arr Cons sk show ?thesis
            by simp
        next
          case False
          with p \<open>s = c # cs\<close> arr Cons
          obtain vals where l: "JSONArray_loop (q # r) = Inr (vals, rest)"
            by (auto split: if_splits sum.splits)
          from "1.hyps"(3) [OF \<open>s = c # cs\<close> _ _ arr Cons False l] arr
          have "length rest < length (q # r)" by simp
          with sk \<open>s = c # cs\<close> show ?thesis by simp
        qed
      qed
    next
      case const
      with p Cons have "scan_constant s = Inr (v, rest)" by simp
      then show ?thesis by (rule scan_constant_length)
    qed
  qed
next
  case (2 s)
  note dom = "2.hyps"(1)
  note p = "2.prems" [unfolded JSONArray_loop.psimps [OF dom]]
  from p obtain v r0 where so: "scan_once s = Inr (v, r0)"
    by (auto split: sum.splits)
  from "2.hyps"(2) [OF so] have l0: "length r0 < length s" .
  show ?case
  proof (cases "skip_ws r0")
    case Nil
    with p so show ?thesis by simp
  next
    case (Cons d r)
    note sk = skip_ws_Cons_length [OF Cons]
    show ?thesis
    proof (cases "d = 0x5D")
      case True
      with p so Cons sk l0 show ?thesis by simp
    next
      case False
      with p so Cons
      obtain vs' where d: "d = 0x2C" and l: "JSONArray_loop (skip_ws r) = Inr (vs', rest1)"
        by (auto split: if_splits sum.splits)
      from "2.hyps"(3) [OF so refl Cons False d l]
      have "length rest1 < length (skip_ws r)" .
      with skip_ws_length [of r] sk l0 show ?thesis by simp
    qed
  qed
next
  case (3 s)
  note dom = "3.hyps"(1)
  note p = "3.prems" [unfolded JSONObject_loop.psimps [OF dom]]
  from p obtain key r1 where ss: "scanstring s = Inr (key, r1)"
    by (auto split: sum.splits)
  note l1 = scanstring_length [OF ss]
  from p ss obtain r2 where sk1: "skip_ws r1 = 0x3A # r2"
    by (auto split: list.splits if_splits)
  note l2 = skip_ws_Cons_length [OF sk1]
  from p ss sk1 obtain v r3 where so: "scan_once (skip_ws r2) = Inr (v, r3)"
    by (auto split: sum.splits)
  from "3.hyps"(2) [OF ss refl sk1 _ so] have l3: "length r3 < length (skip_ws r2)" by simp
  from p ss sk1 so obtain d r4 where sk3: "skip_ws r3 = d # r4"
    by (auto split: list.splits)
  note l4 = skip_ws_Cons_length [OF sk3]
  have base: "length r4 < length s"
    using l1 l2 l3 l4 skip_ws_length [of r2] by simp
  show ?case
  proof (cases "d = 0x7D")
    case True
    with p ss sk1 so sk3 base show ?thesis by simp
  next
    case False
    with p ss sk1 so sk3
    obtain r5 ps' where d: "d = 0x2C" and sk4: "skip_ws r4 = 0x22 # r5"
      and l: "JSONObject_loop r5 = Inr (ps', rest2)"
      by (auto split: if_splits list.splits sum.splits)
    from "3.hyps"(3) [OF ss refl sk1 _ so refl sk3 False _ sk4 _ l] d
    have "length rest2 < length r5" by simp
    with skip_ws_Cons_length [OF sk4] base show ?thesis by simp
  qed
qed

lemma scan_once_length_dom:
  "scan_once_JSONArray_loop_JSONObject_loop_dom (Inl s) \<Longrightarrow>
     scan_once s = Inr b \<Longrightarrow> length (snd b) < length s"
  using scan_length_partial(1) [of s "fst b" "snd b"] by simp

termination scan_once
proof (relation "measure (\<lambda>x. case x of Inl s \<Rightarrow> 2 * length s
                                  | Inr (Inl s) \<Rightarrow> 2 * length s + 1
                                  | Inr (Inr s) \<Rightarrow> 2 * length s + 1)", goal_cases)
  case 1
  show ?case by simp
next
  case 2
  then show ?case by (auto dest!: skip_ws_Cons_length)
next
  case 3
  then show ?case by (auto dest!: skip_ws_Cons_length)
next
  case 4
  then show ?case by simp
next
  case (5 s b x y d r)
  from scan_once_length_dom [OF 5(6) 5(1)] 5(2) have "length y < length s" by auto
  with skip_ws_Cons_length [OF 5(3)] skip_ws_length [of r] show ?case by simp
next
  case (6 s b key r1 c r2)
  from scanstring_length [of s key r1] 6(1,2) have "length r1 < length s" by simp
  with skip_ws_Cons_length [OF 6(3)] skip_ws_length [of r2] show ?case by simp
next
  case (7 s b key r1 c r2 ba v r3 d r4 q r5)
  from scanstring_length [of s key r1] 7(1,2) have "length r1 < length s" by simp
  moreover from scan_once_length_dom [OF 7(12) 7(5)] 7(6)
  have "length r3 < length (skip_ws r2)" by auto
  ultimately show ?case
    using skip_ws_Cons_length [OF 7(3)] skip_ws_length [of r2]
      skip_ws_Cons_length [OF 7(7)] skip_ws_Cons_length [OF 7(10)] by simp
qed

text \<open>
  \<^verbatim>\<open>json.loads(s)\<close> for a \<^verbatim>\<open>str\<close>: a leading byte order mark is refused, white space is skipped
  on both sides of the value, and anything after it is \<^verbatim>\<open>Extra data\<close>.
\<close>

definition json_loads :: "pystr \<Rightarrow> pyexn + pyval" where
  "json_loads s =
     (if take 1 s = [0xFEFF] then Inl (JSONDecodeError (ustr ''Unexpected UTF-8 BOM (decode using utf-8-sig)''))
      else
        (case scan_once (skip_ws s) of
           Inl e \<Rightarrow> Inl e
         | Inr (obj, rest) \<Rightarrow>
             if skip_ws rest = [] then Inr obj
             else Inl (JSONDecodeError (ustr ''Extra data''))))"

fun py_json_loads :: "pyval \<Rightarrow> pyexn + pyval" where
  "py_json_loads (PStr s) = json_loads s"
| "py_json_loads v =
     Inl (TypeError (ustr ''the JSON object must be str, bytes or bytearray, not '' @ type_name v))"

section \<open>The gateway\<close>

subsection \<open>\<^verbatim>\<open>parse_llm_json\<close>\<close>

text \<open>
  \<^verbatim>\<open>
  def parse_llm_json(raw: str) -> dict:
      try:
          raw = raw.replace("```json", "")
          raw = raw.replace("```", "")
          return json.loads(raw)
      except Exception:
          return {"answer": "ERROR",
                  "justification": "LLM returned invalid JSON",
                  "raw_output": raw}
  \<close>
  The two assignments rebind \<^verbatim>\<open>raw\<close>, so the handler sees the binding that is current when
  the exception is raised: \<open>parse_except\<close> takes it as its second argument.
\<close>

definition failure_object :: "pyval \<Rightarrow> pyval" where
  "failure_object raw =
     PDict [(ustr ''answer'', PStr (ustr ''ERROR'')),
            (ustr ''justification'', PStr (ustr ''LLM returned invalid JSON'')),
            (ustr ''raw_output'', raw)]"

definition parse_except :: "pyexn \<Rightarrow> pyval \<Rightarrow> pyexn + pyval" where
  "parse_except e raw = (if is_Exception e then Inr (failure_object raw) else Inl e)"

definition parse_llm_json :: "pyval \<Rightarrow> pyexn + pyval" where
  "parse_llm_json raw =
     (case py_replace raw (ustr ''```json'') [] of
        Inl e \<Rightarrow> parse_except e raw
      | Inr raw1 \<Rightarrow>
          (case py_replace raw1 (ustr ''```'') [] of
             Inl e \<Rightarrow> parse_except e raw1
           | Inr raw2 \<Rightarrow>
               (case py_json_loads raw2 of
                  Inl e \<Rightarrow> parse_except e raw2
                | Inr v \<Rightarrow> Inr v)))"

text \<open>What the two \<^verbatim>\<open>replace\<close> calls make of a string.\<close>

definition strip_fences :: "pystr \<Rightarrow> pystr" where
  "strip_fences s = str_replace (ustr ''```'') [] (str_replace (ustr ''```json'') [] s)"

fun has_key :: "pyval \<Rightarrow> pystr \<Rightarrow> bool" where
  "has_key (PDict d) k = (k \<in> set (map fst d))"
| "has_key v k = False"

fun is_dict :: "pyval \<Rightarrow> bool" where
  "is_dict (PDict d) = True"
| "is_dict v = False"

fun is_str :: "pyval \<Rightarrow> bool" where
  "is_str (PStr s) = True"
| "is_str v = False"

subsection \<open>The \<^verbatim>\<open>/chat\<close> handler\<close>

text \<open>
  \<^verbatim>\<open>
  def chat():
      try:
          data = request.get_json()
          question = data.get("question", "").strip()
          if not question:
              return jsonify({"error": "Empty question"}), 400
          raw_answer = answer_question(question)
          parsed_answer = parse_llm_json(raw_answer)
          return jsonify({"question": question, "result": parsed_answer})
      except Exception as e:
          traceback.print_exc()
          return jsonify({"error": str(e)}), 500
  \<close>
  The request is what \<^verbatim>\<open>request.get_json()\<close> does with it: it returns the decoded payload
  (\<^verbatim>\<open>None\<close> when there is none) or raises. The pipeline \<^verbatim>\<open>answer_question\<close> is a parameter: it
  returns an object or raises. The handler threads the list of the questions the pipeline
  has been called with, so that a call is visible in the result. A response is the
  structure given to \<^verbatim>\<open>jsonify\<close> and the status.
\<close>

record response =
  body :: pyval
  status :: nat

definition error_response :: "pystr \<Rightarrow> nat \<Rightarrow> response" where
  "error_response msg code = \<lparr>body = PDict [(ustr ''error'', PStr msg)], status = code\<rparr>"

definition chat_except :: "pyexn \<Rightarrow> pyexn + response" where
  "chat_except e = (if is_Exception e then Inr (error_response (exn_str e) 500) else Inl e)"

definition chat ::
  "(pystr \<Rightarrow> pyexn + pyval) \<Rightarrow> pyexn + pyval \<Rightarrow> pystr list \<Rightarrow> (pyexn + response) \<times> pystr list"
where
  "chat answer_question get_json calls =
     (case get_json of
        Inl e \<Rightarrow> (chat_except e, calls)
      | Inr data \<Rightarrow>
          (case py_get data (ustr ''question'') (PStr []) of
             Inl e \<Rightarrow> (chat_except e, calls)
           | Inr q \<Rightarrow>
               (case py_strip q of
                  Inl e \<Rightarrow> (chat_except e, calls)
                | Inr question \<Rightarrow>
                    if question = [] then (Inr (error_response (ustr ''Empty question'') 400), calls)
                    else
                      (case answer_question question of
                         Inl e \<Rightarrow> (chat_except e, calls @ [question])
                       | Inr raw_answer \<Rightarrow>
                           (case parse_llm_json raw_answer of
                              Inl e \<Rightarrow> (chat_except e, calls @ [question])
                            | Inr parsed_answer \<Rightarrow>
                                (Inr \<lparr>body = PDict [(ustr ''question'', PStr question),
                                                     (ustr ''result'', parsed_answer)],
                                      status = 200\<rparr>,
                                 calls @ [question]))))))"

text \<open>A request without a usable payload: \<^verbatim>\<open>get_json\<close> raises, or returns no dictionary.\<close>

definition unstructured :: "pyexn + pyval \<Rightarrow> bool" where
  "unstructured get_json = (case get_json of Inl e \<Rightarrow> True | Inr data \<Rightarrow> \<not> is_dict data)"

subsection \<open>The scenario of the fenced answer\<close>

text \<open>
  The text of the scenario in which the pipeline wraps its JSON object in a code fence:
  the opening fence, a newline, \<^verbatim>\<open>{"answer":"X","justification":"Y"}\<close>, a newline, the closing
  fence.
\<close>

definition fenced_answer :: pystr where
  "fenced_answer =
     ustr ''```json'' @ 0x0A # ustr ''{'' @ 0x22 # ustr ''answer'' @ 0x22 # 0x3A # 0x22 # ustr ''X'' @ 0x22
       # 0x2C # 0x22 # ustr ''justification'' @ 0x22 # 0x3A # 0x22 # ustr ''Y'' @ 0x22 # ustr ''}''
       @ 0x0A # ustr ''```''"

text \<open>The object of the scenario without its fences.\<close>

definition answer_text :: pystr where
  "answer_text =
     ustr ''{'' @ 0x22 # ustr ''answer'' @ 0x22 # 0x3A # 0x22 # ustr ''X'' @ 0x22
       # 0x2C # 0x22 # ustr ''justification'' @ 0x22 # 0x3A # 0x22 # ustr ''Y'' @ 0x22 # ustr ''}''"

section \<open>The JSON encoder \<^verbatim>\<open>json.dumps\<close>\<close>

text \<open>
  The round trip of the normalizer needs the encoding of an object as text. It is the
  standard library's \<^verbatim>\<open>json.dumps\<close> with its default arguments: \<^verbatim>\<open>ensure_ascii\<close>, the
  separators \<^verbatim>\<open>", "\<close> and \<^verbatim>\<open>": "\<close>, the keys in insertion order.
\<close>

definition hexdigit :: "nat \<Rightarrow> nat" where
  "hexdigit d = (if d < 10 then 0x30 + d else 0x61 + (d - 10))"

text \<open>\<^verbatim>\<open>'{0:04x}'.format(n)\<close> for \<open>n < 0x10000\<close>, the only values it is applied to.\<close>

definition hex4 :: "nat \<Rightarrow> pystr" where
  "hex4 n = [hexdigit (n div 4096 mod 16), hexdigit (n div 256 mod 16),
             hexdigit (n div 16 mod 16), hexdigit (n mod 16)]"

text \<open>
  The replacement function of \<^verbatim>\<open>py_encode_basestring_ascii\<close>: the table \<^verbatim>\<open>ESCAPE_DCT\<close>, the
  printable ASCII characters as they are, \<^verbatim>\<open>\uXXXX\<close> for the rest of the basic plane and a
  surrogate pair above it (\<open>div 1024\<close> and \<open>mod 1024\<close> are Python's \<^verbatim>\<open>>> 10\<close> and \<^verbatim>\<open>& 0x3ff\<close>).
\<close>

definition escape_ascii :: "nat \<Rightarrow> pystr" where
  "escape_ascii c =
     (if c = 0x5C then [0x5C, 0x5C]
      else if c = 0x22 then [0x5C, 0x22]
      else if c = 0x08 then [0x5C, 0x62]
      else if c = 0x0C then [0x5C, 0x66]
      else if c = 0x0A then [0x5C, 0x6E]
      else if c = 0x0D then [0x5C, 0x72]
      else if c = 0x09 then [0x5C, 0x74]
      else if 0x20 \<le> c \<and> c \<le> 0x7E then [c]
      else if c < 0x10000 then 0x5C # 0x75 # hex4 c
      else 0x5C # 0x75 # hex4 (0xD800 + (c - 0x10000) div 1024 mod 1024)
           @ 0x5C # 0x75 # hex4 (0xDC00 + (c - 0x10000) mod 1024))"

definition encode_basestring_ascii :: "pystr \<Rightarrow> pystr" where
  "encode_basestring_ascii s = 0x22 # concat (map escape_ascii s) @ [0x22]"

text \<open>\<^verbatim>\<open>int.__repr__\<close>: the decimal digits, most significant first.\<close>

function nat_repr :: "nat \<Rightarrow> pystr" where
  "nat_repr n = (if n < 10 then [0x30 + n] else nat_repr (n div 10) @ [0x30 + n mod 10])"
  by pat_completeness auto
termination nat_repr
  by (relation "measure id") auto

declare nat_repr.simps [simp del]

definition int_repr :: "int \<Rightarrow> pystr" where
  "int_repr i = (if i < 0 then 0x2D # nat_repr (nat (- i)) else nat_repr (nat i))"

text \<open>\<^verbatim>\<open>sep.join(items)\<close>.\<close>

fun join_sep :: "pystr \<Rightarrow> pystr list \<Rightarrow> pystr" where
  "join_sep sep [] = []"
| "join_sep sep [x] = x"
| "join_sep sep (x # y # ys) = x @ sep @ join_sep sep (y # ys)"

text \<open>
  A float is written with \<^verbatim>\<open>float.__repr__\<close>, a literal that reads back as the same float;
  in the model the float is that literal.
\<close>

fun json_dumps :: "pyval \<Rightarrow> pystr" where
  "json_dumps PNone = ustr ''null''"
| "json_dumps (PBool b) = (if b then ustr ''true'' else ustr ''false'')"
| "json_dumps (PInt i) = int_repr i"
| "json_dumps (PFloat lit) = lit"
| "json_dumps (PStr s) = encode_basestring_ascii s"
| "json_dumps (PList vs) = 0x5B # join_sep (ustr '', '') (map json_dumps vs) @ [0x5D]"
| "json_dumps (PDict kvs) =
     0x7B # join_sep (ustr '', '')
              (map (\<lambda>kv. encode_basestring_ascii (fst kv) @ ustr '': '' @ json_dumps (snd kv)) kvs)
       @ [0x7D]"

definition dumps_item :: "pystr \<times> pyval \<Rightarrow> pystr" where
  "dumps_item kv = encode_basestring_ascii (fst kv) @ ustr '': '' @ json_dumps (snd kv)"

subsection \<open>JSON data\<close>

text \<open>
  The objects the round trip is about: a string is a sequence of Unicode scalar values (no
  surrogate code points), a float is a JSON number with a fraction or an exponent, the
  keys of a dictionary are distinct.
\<close>

definition scalar :: "nat \<Rightarrow> bool" where
  "scalar c = (c < 0xD800 \<or> (0xE000 \<le> c \<and> c < 0x110000))"

definition float_literal :: "pystr \<Rightarrow> bool" where
  "float_literal lit = (match_number lit = Some (PFloat lit, []))"

fun json_value :: "pyval \<Rightarrow> bool" where
  "json_value PNone = True"
| "json_value (PBool b) = True"
| "json_value (PInt i) = True"
| "json_value (PFloat lit) = float_literal lit"
| "json_value (PStr s) = list_all scalar s"
| "json_value (PList vs) = list_all json_value vs"
| "json_value (PDict kvs) =
     (distinct (map fst kvs) \<and> list_all (\<lambda>kv. list_all scalar (fst kv) \<and> json_value (snd kv)) kvs)"

text \<open>\<^verbatim>\<open>pat in s\<close>: the text \<open>pat\<close> occurs in \<open>s\<close>.\<close>

fun contains :: "pystr \<Rightarrow> pystr \<Rightarrow> bool" where
  "contains pat [] = (pat = [])"
| "contains pat (c # cs) = (take (length pat) (c # cs) = pat \<or> contains pat cs)"

subsection \<open>What may follow a value\<close>

text \<open>
  In a text the decoder accepts, a value is followed by white space, a comma, a closing
  bracket or brace, or the end: \<open>delim\<close>. A value starts with a character that is none of
  these: \<open>value_start\<close>. \<open>num_char\<close> are the characters of a number, \<open>no_digit\<close> says that
  the text does not go on with a digit.
\<close>

fun delim :: "pystr \<Rightarrow> bool" where
  "delim [] = True"
| "delim (c # cs) = (is_ws c \<or> c = 0x2C \<or> c = 0x5D \<or> c = 0x7D)"

fun value_start :: "pystr \<Rightarrow> bool" where
  "value_start [] = False"
| "value_start (c # cs) = (\<not> is_ws c \<and> c \<noteq> 0x5D \<and> c \<noteq> 0x7D \<and> c \<noteq> 0x2C \<and> c \<noteq> 0xFEFF)"

fun no_digit :: "pystr \<Rightarrow> bool" where
  "no_digit [] = True"
| "no_digit (c # cs) = (\<not> is_digit c)"

definition num_char :: "nat \<Rightarrow> bool" where
  "num_char c = (is_digit c \<or> c = 0x2D \<or> c = 0x2B \<or> c = 0x2E \<or> c = 0x65 \<or> c = 0x45)"

section \<open>Texts the decoder treats alike\<close>

text \<open>
  Removing the fence markers deletes backticks, and after them the letters of \<^verbatim>\<open>json\<close>,
  from the text. In a text the decoder accepts a backtick can only stand inside a string,
  where it is an ordinary character (\<open>plain\<close>). \<open>sim True s s'\<close> relates a text \<open>s\<close> to a
  text \<open>s'\<close> obtained by dropping runs of ordinary characters that start with a backtick and
  by adding white space at the end; \<open>sim False\<close> only allows the white space at the end.
\<close>

definition plain :: "nat \<Rightarrow> bool" where
  "plain c = (0x20 \<le> c \<and> c \<noteq> 0x22 \<and> c \<noteq> 0x5C)"

inductive sim :: "bool \<Rightarrow> pystr \<Rightarrow> pystr \<Rightarrow> bool" where
  sim_end: "list_all is_ws w \<Longrightarrow> sim b [] w"
| sim_keep: "sim b s s' \<Longrightarrow> sim b (c # s) (c # s')"
| sim_drop: "list_all plain p \<Longrightarrow> sim True s s' \<Longrightarrow> sim True (0x60 # p @ s) s'"

text \<open>
  The \<^verbatim>\<open>\u\<close> branch of \<open>scanstring\<close> by itself: the code point it yields and the number of
  characters it consumes after \<^verbatim>\<open>\u\<close>.
\<close>

definition u_escape :: "pystr \<Rightarrow> pyexn + nat \<times> nat" where
  "u_escape cs =
     (case decode_uXXXX cs of
        None \<Rightarrow> Inl invalid_uXXXX
      | Some uni \<Rightarrow>
          if 0xD800 \<le> uni \<and> uni \<le> 0xDBFF \<and> take 2 (drop 4 cs) = [0x5C, 0x75] then
            (case decode_uXXXX (drop 6 cs) of
               None \<Rightarrow> Inl invalid_uXXXX
             | Some uni2 \<Rightarrow>
                 if 0xDC00 \<le> uni2 \<and> uni2 \<le> 0xDFFF
                 then Inr (0x10000 + ((uni - 0xD800) * 1024 + (uni2 - 0xDC00)), 10)
                 else Inr (uni, 4))
          else Inr (uni, 4))"

section \<open>Properties of the decoder\<close>

text \<open>
  The recursive equations of the decoder are unfolded by hand: each of them rewrites its own
  left-hand side.
\<close>

declare scan_once.simps [simp del] JSONArray_loop.simps [simp del] JSONObject_loop.simps [simp del]

lemma chunk_Inl: "chunk c r = Inl e \<Longrightarrow> r = Inl e"
  by (auto simp: chunk_def split: sum.splits)

lemma scan_once_Nil: "scan_once [] = Inl expecting_value"
  by (simp add: scan_once.simps)

lemma scan_once_string:
  "scan_once (0x22 # cs) =
     (case scanstring cs of Inl e \<Rightarrow> Inl e | Inr (str, rest) \<Rightarrow> Inr (PStr str, rest))"
  by (simp add: scan_once.simps)

lemma scan_once_object:
  "scan_once (0x7B # cs) =
     (case skip_ws cs of
        [] \<Rightarrow> Inl expecting_name
      | q # r \<Rightarrow>
          if q = 0x7D then Inr (PDict [], r)
          else if q = 0x22 then
            (case JSONObject_loop r of
               Inl e \<Rightarrow> Inl e
             | Inr (pairs, rest) \<Rightarrow> Inr (PDict (dict_of_pairs pairs), rest))
          else Inl expecting_name)"
  by (simp add: scan_once.simps)

lemma scan_once_array:
  "scan_once (0x5B # cs) =
     (case skip_ws cs of
        [] \<Rightarrow> Inl expecting_value
      | q # r \<Rightarrow>
          if q = 0x5D then Inr (PList [], r)
          else
            (case JSONArray_loop (q # r) of
               Inl e \<Rightarrow> Inl e
             | Inr (vals, rest) \<Rightarrow> Inr (PList vals, rest)))"
  by (simp add: scan_once.simps)

lemma scan_once_constant:
  "c \<noteq> 0x22 \<Longrightarrow> c \<noteq> 0x7B \<Longrightarrow> c \<noteq> 0x5B \<Longrightarrow> scan_once (c # cs) = scan_constant (c # cs)"
  by (simp add: scan_once.simps)

lemma scan_once_cases [consumes 1, case_names str empty_obj obj empty_arr arr const]:
  assumes "scan_once s = Inr (v, rest)"
  obtains
    cs x where "s = 0x22 # cs" "scanstring cs = Inr (x, rest)" "v = PStr x"
  | cs where "s = 0x7B # cs" "skip_ws cs = 0x7D # rest" "v = PDict []"
  | cs r pairs where "s = 0x7B # cs" "skip_ws cs = 0x22 # r"
      "JSONObject_loop r = Inr (pairs, rest)" "v = PDict (dict_of_pairs pairs)"
  | cs where "s = 0x5B # cs" "skip_ws cs = 0x5D # rest" "v = PList []"
  | cs q r vals where "s = 0x5B # cs" "skip_ws cs = q # r" "q \<noteq> 0x5D"
      "JSONArray_loop (q # r) = Inr (vals, rest)" "v = PList vals"
  | c cs where "s = c # cs" "c \<noteq> 0x22" "c \<noteq> 0x7B" "c \<noteq> 0x5B"
      "scan_constant s = Inr (v, rest)"
proof (cases s)
  case Nil
  with assms show ?thesis by (simp add: scan_once_Nil)
next
  case (Cons c cs)
  consider "c = 0x22" | "c = 0x7B" | "c = 0x5B" | "c \<noteq> 0x22" "c \<noteq> 0x7B" "c \<noteq> 0x5B"
    by blast
  then show ?thesis
  proof cases
    case 1
    with assms Cons that(1) show ?thesis
      by (auto simp: scan_once_string split: sum.splits)
  next
    case 2
    with assms Cons that(2,3) show ?thesis
      by (auto simp: scan_once_object split: list.splits if_splits sum.splits)
  next
    case 3
    with assms Cons that(4,5) show ?thesis
      by (auto simp: scan_once_array split: list.splits if_splits sum.splits)
  next
    case 4
    with assms Cons that(6) show ?thesis
      by (auto simp: scan_once_constant)
  qed
qed

lemma JSONArray_loop_cases [consumes 1, case_names last more]:
  assumes "JSONArray_loop s = Inr (vs, rest)"
  obtains
    v r0 where "scan_once s = Inr (v, r0)" "skip_ws r0 = 0x5D # rest" "vs = [v]"
  | v r0 r vs' where "scan_once s = Inr (v, r0)" "skip_ws r0 = 0x2C # r"
      "JSONArray_loop (skip_ws r) = Inr (vs', rest)" "vs = v # vs'"
  using assms unfolding JSONArray_loop.simps [of s]
  by (auto split: sum.splits list.splits if_splits prod.splits)

lemma JSONObject_loop_cases [consumes 1, case_names last more]:
  assumes "JSONObject_loop s = Inr (ps, rest)"
  obtains
    key r1 r2 v r3 where "scanstring s = Inr (key, r1)" "skip_ws r1 = 0x3A # r2"
      "scan_once (skip_ws r2) = Inr (v, r3)" "skip_ws r3 = 0x7D # rest" "ps = [(key, v)]"
  | key r1 r2 v r3 r4 r5 ps' where "scanstring s = Inr (key, r1)" "skip_ws r1 = 0x3A # r2"
      "scan_once (skip_ws r2) = Inr (v, r3)" "skip_ws r3 = 0x2C # r4" "skip_ws r4 = 0x22 # r5"
      "JSONObject_loop r5 = Inr (ps', rest)" "ps = (key, v) # ps'"
  using assms unfolding JSONObject_loop.simps [of s]
  by (auto split: sum.splits list.splits if_splits prod.splits)

lemma JSONArray_loop_last:
  "scan_once s = Inr (v, r0) \<Longrightarrow> skip_ws r0 = 0x5D # rest \<Longrightarrow> JSONArray_loop s = Inr ([v], rest)"
  by (simp add: JSONArray_loop.simps [of s])

lemma JSONArray_loop_more:
  "scan_once s = Inr (v, r0) \<Longrightarrow> skip_ws r0 = 0x2C # r \<Longrightarrow>
     JSONArray_loop (skip_ws r) = Inr (vs, rest) \<Longrightarrow> JSONArray_loop s = Inr (v # vs, rest)"
  by (simp add: JSONArray_loop.simps [of s])

lemma JSONObject_loop_last:
  "scanstring s = Inr (key, r1) \<Longrightarrow> skip_ws r1 = 0x3A # r2 \<Longrightarrow>
     scan_once (skip_ws r2) = Inr (v, r3) \<Longrightarrow> skip_ws r3 = 0x7D # rest \<Longrightarrow>
     JSONObject_loop s = Inr ([(key, v)], rest)"
  by (simp add: JSONObject_loop.simps [of s])

lemma JSONObject_loop_more:
  "scanstring s = Inr (key, r1) \<Longrightarrow> skip_ws r1 = 0x3A # r2 \<Longrightarrow>
     scan_once (skip_ws r2) = Inr (v, r3) \<Longrightarrow> skip_ws r3 = 0x2C # r4 \<Longrightarrow>
     skip_ws r4 = 0x22 # r5 \<Longrightarrow> JSONObject_loop r5 = Inr (ps, rest) \<Longrightarrow>
     JSONObject_loop s = Inr ((key, v) # ps, rest)"
  by (simp add: JSONObject_loop.simps [of s])

text \<open>Every failure of the decoder is an exception that \<^verbatim>\<open>except Exception\<close> catches.\<close>

lemma scanstring_error: "scanstring s = Inl e \<Longrightarrow> is_Exception e"
proof (induction s rule: scanstring.induct)
  case 1
  then show ?case by (auto simp: unterminated_def)
next
  case (2 c cs)
  then show ?case
    by (auto simp: unterminated_def invalid_uXXXX_def invalid_escape_def invalid_control_def
        split: if_splits list.splits option.splits dest!: chunk_Inl)
qed

lemma scan_constant_error: "scan_constant s = Inl e \<Longrightarrow> is_Exception e"
  by (auto simp: scan_constant_def expecting_value_def split: if_splits option.splits)

lemma scan_error:
  "scan_once s = Inl e \<Longrightarrow> is_Exception e"
  "JSONArray_loop s1 = Inl e1 \<Longrightarrow> is_Exception e1"
  "JSONObject_loop s2 = Inl e2 \<Longrightarrow> is_Exception e2"
proof (induction s and s1 and s2 arbitrary: e and e1 and e2
    rule: scan_once_JSONArray_loop_JSONObject_loop.induct)
  case (1 s)
  note p = "1.prems" [unfolded scan_once.simps [of s]]
  show ?case
  proof (cases s)
    case Nil
    with p show ?thesis by (auto simp: expecting_value_def)
  next
    case (Cons c cs)
    consider "c = 0x22" | "c = 0x7B" | "c = 0x5B" | "c \<noteq> 0x22" "c \<noteq> 0x7B" "c \<noteq> 0x5B"
      by blast
    then show ?thesis
    proof cases
      case 1
      with p Cons show ?thesis
        by (auto split: sum.splits dest: scanstring_error)
    next
      case 2
      show ?thesis
      proof (cases "skip_ws cs")
        case Nil
        with p \<open>s = c # cs\<close> 2 show ?thesis by (auto simp: expecting_name_def)
      next
        case (Cons q r)
        with p \<open>s = c # cs\<close> 2 "1.IH"(1) [OF \<open>s = c # cs\<close> _ 2 Cons]
        show ?thesis
          by (auto simp: expecting_name_def split: if_splits sum.splits)
      qed
    next
      case 3
      show ?thesis
      proof (cases "skip_ws cs")
        case Nil
        with p \<open>s = c # cs\<close> 3 show ?thesis by (auto simp: expecting_value_def)
      next
        case (Cons q r)
        with p \<open>s = c # cs\<close> 3 "1.IH"(2) [OF \<open>s = c # cs\<close> _ _ 3 Cons]
        show ?thesis
          by (auto split: if_splits sum.splits)
      qed
    next
      case 4
      with p Cons show ?thesis by (auto dest: scan_constant_error)
    qed
  qed
next
  case (2 s)
  note p = "2.prems" [unfolded JSONArray_loop.simps [of s]]
  show ?case
  proof (cases "scan_once s")
    case (Inl e')
    with p "2.IH"(1) show ?thesis by simp
  next
    case (Inr b)
    obtain v rest where b: "b = (v, rest)" by (cases b)
    show ?thesis
    proof (cases "skip_ws rest")
      case Nil
      with p Inr b show ?thesis by (auto simp: expecting_comma_def)
    next
      case (Cons d r)
      with p Inr b "2.IH"(2) [OF Inr b [symmetric] Cons]
      show ?thesis
        by (auto simp: expecting_comma_def split: if_splits sum.splits prod.splits)
    qed
  qed
next
  case (3 s)
  note p = "3.prems" [unfolded JSONObject_loop.simps [of s]]
  show ?case
  proof (cases "scanstring s")
    case (Inl e')
    with p scanstring_error show ?thesis by auto
  next
    case (Inr b)
    note ss = Inr
    obtain key r1 where b: "b = (key, r1)" by (cases b)
    show ?thesis
    proof (cases "skip_ws r1")
      case Nil
      with p Inr b show ?thesis by (auto simp: expecting_colon_def)
    next
      case (Cons c r2)
      note sk1 = Cons
      show ?thesis
      proof (cases "c = 0x3A")
        case False
        with p Inr b sk1 show ?thesis by (auto simp: expecting_colon_def)
      next
        case True
        then have c: "\<not> c \<noteq> 0x3A" by simp
        show ?thesis
        proof (cases "scan_once (skip_ws r2)")
          case (Inl e')
          with p ss b sk1 True "3.IH"(1) [OF ss b [symmetric] sk1 c]
          show ?thesis by simp
        next
          case (Inr b')
          note so = Inr
          obtain v r3 where b': "b' = (v, r3)" by (cases b')
          show ?thesis
          proof (cases "skip_ws r3")
            case Nil
            with p ss b sk1 True so b' show ?thesis
              by (auto simp: expecting_comma_def)
          next
            case (Cons d r4)
            note sk3 = Cons
            show ?thesis
            proof (cases "d = 0x7D \<or> d \<noteq> 0x2C")
              case True
              with p ss b sk1 \<open>c = 0x3A\<close> so b' sk3 show ?thesis
                by (auto simp: expecting_comma_def split: if_splits)
            next
              case False
              then have d: "d \<noteq> 0x7D" "\<not> d \<noteq> 0x2C" by simp_all
              show ?thesis
              proof (cases "skip_ws r4")
                case Nil
                with p ss b sk1 \<open>c = 0x3A\<close> so b' sk3 d show ?thesis
                  by (auto simp: expecting_name_def)
              next
                case (Cons q r5)
                show ?thesis
                proof (cases "q = 0x22")
                  case False
                  with p ss b sk1 \<open>c = 0x3A\<close> so b' sk3 d Cons show ?thesis
                    by (auto simp: expecting_name_def)
                next
                  case True
                  then have q: "\<not> q \<noteq> 0x22" by simp
                  note ih = "3.IH"(2) [OF ss b [symmetric] sk1 c so b' [symmetric] sk3 d Cons q]
                  from p ss b sk1 \<open>c = 0x3A\<close> so b' sk3 d Cons True ih
                  show ?thesis by (auto split: sum.splits prod.splits)
                qed
              qed
            qed
          qed
        qed
      qed
    qed
  qed
qed

lemma json_loads_error: "json_loads s = Inl e \<Longrightarrow> is_Exception e"
  by (auto simp: json_loads_def split: if_splits sum.splits dest: scan_error(1))

section \<open>Numbers and constants are decided by what was matched\<close>

text \<open>
  The number pattern is greedy, so what it matches depends on the text after it. Once it
  has matched, the same match is found again in front of any text that starts like the
  text after a value does.
\<close>

lemma takeWhile_digits_app:
  "no_digit t \<Longrightarrow> takeWhile is_digit (takeWhile is_digit ds @ t) = takeWhile is_digit ds"
  by (cases t) (auto simp: takeWhile_append dest: set_takeWhileD)

lemma dropWhile_digits_app:
  "no_digit t \<Longrightarrow> dropWhile is_digit (takeWhile is_digit ds @ t) = t"
  by (cases t) (auto simp: dropWhile_append dest: set_takeWhileD)

lemma digit19_digit: "is_digit19 c \<Longrightarrow> is_digit c"
  by (simp add: is_digit19_def is_digit_def)

lemma digits_num_char: "list_all num_char (takeWhile is_digit ds)"
  by (induction ds) (auto simp: num_char_def)

lemma match_digits_stable:
  assumes "match_digits s = Some (lit, rest)" and "no_digit t"
  shows "match_digits (lit @ t) = Some (lit, t) \<and> list_all num_char lit"
  using assms
  by (cases s)
    (auto split: if_splits simp: takeWhile_digits_app dropWhile_digits_app digits_num_char
      num_char_def is_digit_def is_digit19_def)

lemma match_integer_stable:
  assumes "match_integer s = Some (lit, rest)" and "no_digit t"
  shows "match_integer (lit @ t) = Some (lit, t) \<and> list_all num_char lit"
proof (cases s)
  case Nil
  with assms show ?thesis by simp
next
  case (Cons c cs)
  show ?thesis
  proof (cases "c = 0x2D")
    case True
    with assms Cons obtain l where m: "match_digits cs = Some (l, rest)" and lit: "lit = c # l"
      by (auto split: option.splits)
    from match_digits_stable [OF m assms(2)] lit True show ?thesis
      by (simp add: num_char_def)
  next
    case False
    with assms Cons have m: "match_digits s = Some (lit, rest)" by simp
    from match_digits_app [OF m] obtain d ds where l: "lit = d # ds" by (cases lit) auto
    from m l Cons have "d = c" using match_digits_app [OF m] by simp
    with match_digits_stable [OF m assms(2)] l False show ?thesis by simp
  qed
qed

lemma match_frac_stable:
  assumes "match_frac s = (lit, rest)" and "lit \<noteq> []" and "no_digit t"
  shows "match_frac (lit @ t) = (lit, t) \<and> list_all num_char lit"
  using assms
  by (induction s rule: match_frac.induct)
    (auto split: if_splits simp: takeWhile_digits_app dropWhile_digits_app digits_num_char
      num_char_def)

lemma match_frac_none: "t = [] \<or> hd t \<noteq> 0x2E \<Longrightarrow> match_frac t = ([], t)"
  by (induction t rule: match_frac.induct) auto

lemma match_exp_tail_stable:
  assumes "match_exp_tail s = Some (lit, rest)" and "no_digit t"
  shows "match_exp_tail (lit @ t) = Some (lit, t) \<and> list_all num_char lit"
  using assms
  by (cases s)
    (auto split: if_splits list.splits simp: takeWhile_digits_app dropWhile_digits_app
      digits_num_char num_char_def)

lemma match_exp_stable:
  assumes "match_exp s = (lit, rest)" and "lit \<noteq> []" and "no_digit t"
  shows "match_exp (lit @ t) = (lit, t) \<and> list_all num_char lit"
proof (cases s)
  case Nil
  with assms show ?thesis by simp
next
  case (Cons e s1)
  with assms obtain l where e: "e = 0x65 \<or> e = 0x45" and m: "match_exp_tail s1 = Some (l, rest)"
    and lit: "lit = e # l"
    by (auto split: if_splits option.splits)
  from match_exp_tail_stable [OF m assms(3)] e lit show ?thesis
    by (auto simp: num_char_def)
qed

lemma match_exp_none: "t = [] \<or> (hd t \<noteq> 0x65 \<and> hd t \<noteq> 0x45) \<Longrightarrow> match_exp t = ([], t)"
  by (cases t) auto

lemma delim_no_digit: "delim t \<Longrightarrow> no_digit t"
  by (cases t) (auto simp: is_ws_def is_digit_def)

lemma delim_hd:
  "delim t \<Longrightarrow> t = [] \<or> (hd t \<noteq> 0x2E \<and> hd t \<noteq> 0x65 \<and> hd t \<noteq> 0x45 \<and> \<not> num_char (hd t))"
  by (cases t) (auto simp: is_ws_def num_char_def is_digit_def)

text \<open>
  What the number pattern matched is matched again, with the same value, whenever the text
  that follows starts with white space or a delimiter.
\<close>

lemma match_number_stable:
  assumes "match_number s = Some (v, rest)"
  shows "\<exists>lit. s = lit @ rest \<and> lit \<noteq> [] \<and> list_all num_char lit
           \<and> (\<forall>t. delim t \<longrightarrow> match_number (lit @ t) = Some (v, t))"
proof -
  from assms obtain i s1 f s2 e where
    m: "match_integer s = Some (i, s1)" "match_frac s1 = (f, s2)" "match_exp s2 = (e, rest)"
    and v: "v = (if f \<noteq> [] \<or> e \<noteq> [] then PFloat (i @ f @ e) else PInt (py_int i))"
    by (auto simp: match_number_def split: option.splits prod.splits if_splits)
  from match_integer_app [OF m(1)] match_frac_app [OF m(2)] match_exp_app [OF m(3)]
  have s: "s = (i @ f @ e) @ rest" and i: "i \<noteq> []" by simp_all
  have stable: "match_number ((i @ f @ e) @ t) = Some (v, t) \<and> list_all num_char (i @ f @ e)"
    if t: "delim t" for t
  proof -
    note nd = delim_no_digit [OF t]
    have fe: "f = [] \<or> hd f = 0x2E"
      using m(2) by (induction s1 rule: match_frac.induct) (auto split: if_splits)
    have ee: "e = [] \<or> hd e = 0x65 \<or> hd e = 0x45"
      using m(3) by (cases s2) (auto split: if_splits option.splits)
    have nd_e: "no_digit (e @ t)"
      using ee nd by (cases e) (auto simp: is_digit_def)
    have nd_fe: "no_digit (f @ e @ t)"
      using fe nd_e by (cases f) (auto simp: is_digit_def)
    have 1: "match_integer (i @ f @ e @ t) = Some (i, f @ e @ t)" "list_all num_char i"
      using match_integer_stable [OF m(1) nd_fe] by simp_all
    have 2: "match_frac (f @ e @ t) = (f, e @ t) \<and> list_all num_char f"
    proof (cases "f = []")
      case True
      have "e @ t = [] \<or> hd (e @ t) \<noteq> 0x2E"
        using ee delim_hd [OF t] by (cases e) auto
      from match_frac_none [OF this] True show ?thesis by simp
    next
      case False
      with match_frac_stable [OF m(2) _ nd_e] show ?thesis by simp
    qed
    have 3: "match_exp (e @ t) = (e, t) \<and> list_all num_char e"
    proof (cases "e = []")
      case True
      from delim_hd [OF t] have "t = [] \<or> (hd t \<noteq> 0x65 \<and> hd t \<noteq> 0x45)" by auto
      from match_exp_none [OF this] True show ?thesis by simp
    next
      case False
      with match_exp_stable [OF m(3) _ nd] show ?thesis by simp
    qed
    from 1 2 3 v show ?thesis by (simp add: match_number_def)
  qed
  from stable [of "[]"] have "list_all num_char (i @ f @ e)" by simp
  with s i stable show ?thesis by (intro exI [of _ "i @ f @ e"]) simp
qed

lemma take_ustr_app:
  "take (length (ustr w)) s = ustr w \<Longrightarrow> s = ustr w @ drop (length (ustr w)) s"
  by (metis append_take_drop_id)

lemma num_char_not_backtick: "list_all num_char lit \<Longrightarrow> 0x60 \<notin> set lit"
  by (auto simp: list_all_iff num_char_def is_digit_def)

lemma scan_constant_stable:
  assumes "scan_constant s = Inr (v, rest)"
  shows "\<exists>lit. s = lit @ rest \<and> lit \<noteq> [] \<and> 0x60 \<notin> set lit
           \<and> (\<forall>t. delim t \<longrightarrow> scan_constant (lit @ t) = Inr (v, t))"
proof -
  consider (null) "take 4 s = ustr ''null''"
    | (true) "take 4 s \<noteq> ustr ''null''" "take 4 s = ustr ''true''"
    | (false) "take 4 s \<noteq> ustr ''null''" "take 4 s \<noteq> ustr ''true''" "take 5 s = ustr ''false''"
    | (other) "take 4 s \<noteq> ustr ''null''" "take 4 s \<noteq> ustr ''true''" "take 5 s \<noteq> ustr ''false''"
    by blast
  then show ?thesis
  proof cases
    case null
    with assms have v: "v = PNone" "rest = drop 4 s" by (simp_all add: scan_constant_def)
    from null have "s = ustr ''null'' @ rest" unfolding v by (metis append_take_drop_id)
    with v show ?thesis
      by (intro exI [of _ "ustr ''null''"]) (simp add: scan_constant_def ustr_def)
  next
    case true
    with assms have v: "v = PBool True" "rest = drop 4 s" by (simp_all add: scan_constant_def)
    from true have "s = ustr ''true'' @ rest" unfolding v by (metis append_take_drop_id)
    with v show ?thesis
      by (intro exI [of _ "ustr ''true''"]) (simp add: scan_constant_def ustr_def)
  next
    case false
    with assms have v: "v = PBool False" "rest = drop 5 s" by (simp_all add: scan_constant_def)
    from false have "s = ustr ''false'' @ rest" unfolding v by (metis append_take_drop_id)
    with v show ?thesis
      by (intro exI [of _ "ustr ''false''"]) (simp add: scan_constant_def ustr_def)
  next
    case other
    show ?thesis
    proof (cases "match_number s")
      case (Some r)
      with assms other have m: "match_number s = Some (v, rest)"
        by (simp add: scan_constant_def)
      from match_number_stable [OF m] obtain lit where
        l: "s = lit @ rest" "lit \<noteq> []" "list_all num_char lit"
          "\<And>t. delim t \<Longrightarrow> match_number (lit @ t) = Some (v, t)" by blast
      from l(2,3) obtain c cs where c: "lit = c # cs" "num_char c" by (cases lit) auto
      have "scan_constant (lit @ t) = Inr (v, t)" if "delim t" for t
        using l(4) [OF that] c
        by (auto simp: scan_constant_def ustr_def num_char_def is_digit_def)
      with l num_char_not_backtick [OF l(3)] show ?thesis by blast
    next
      case None
      note nm = None
      consider (nan) "take 3 s = ustr ''NaN''"
        | (inf) "take 3 s \<noteq> ustr ''NaN''" "take 8 s = ustr ''Infinity''"
        | (ninf) "take 3 s \<noteq> ustr ''NaN''" "take 8 s \<noteq> ustr ''Infinity''"
            "take 9 s = ustr ''-Infinity''"
        | (fail) "take 3 s \<noteq> ustr ''NaN''" "take 8 s \<noteq> ustr ''Infinity''"
            "take 9 s \<noteq> ustr ''-Infinity''"
        by blast
      then show ?thesis
      proof cases
        case nan
        with assms other nm have v: "v = PFloat (ustr ''NaN'')" "rest = drop 3 s"
          by (simp_all add: scan_constant_def)
        from nan have "s = ustr ''NaN'' @ rest" unfolding v by (metis append_take_drop_id)
        with v show ?thesis
          by (intro exI [of _ "ustr ''NaN''"])
            (simp add: scan_constant_def ustr_def match_number_def is_digit19_def)
      next
        case inf
        with assms other nm have v: "v = PFloat (ustr ''Infinity'')" "rest = drop 8 s"
          by (simp_all add: scan_constant_def)
        from inf have "s = ustr ''Infinity'' @ rest" unfolding v by (metis append_take_drop_id)
        with v show ?thesis
          by (intro exI [of _ "ustr ''Infinity''"])
            (simp add: scan_constant_def ustr_def match_number_def is_digit19_def)
      next
        case ninf
        with assms other nm have v: "v = PFloat (ustr ''-Infinity'')" "rest = drop 9 s"
          by (simp_all add: scan_constant_def)
        from ninf have "s = ustr ''-Infinity'' @ rest" unfolding v by (metis append_take_drop_id)
        with v show ?thesis
          by (intro exI [of _ "ustr ''-Infinity''"])
            (simp add: scan_constant_def ustr_def match_number_def is_digit19_def)
      next
        case fail
        with assms other nm show ?thesis by (simp add: scan_constant_def)
      qed
    qed
  qed
qed

section \<open>The decoder inverts the encoder\<close>

text \<open>
  Each encoder is read back by the matching decoder: the digits of an integer, the four
  hexadecimal digits of an escape, the escapes of a string, and finally every JSON value,
  by induction on the value.
\<close>

subsection \<open>Integers\<close>

lemma nat_repr_digits_set: "c \<in> set (nat_repr n) \<Longrightarrow> is_digit c"
proof (induction n arbitrary: c rule: nat_repr.induct)
  case (1 n)
  show ?case
  proof (cases "n < 10")
    case True
    with "1.prems" show ?thesis
      by (subst (asm) nat_repr.simps) (simp add: is_digit_def)
  next
    case False
    with "1.prems" have "c \<in> set (nat_repr (n div 10)) \<or> c = 0x30 + n mod 10"
      by (subst (asm) nat_repr.simps) auto
    with "1.IH" [OF False] show ?thesis
      by (auto simp: is_digit_def)
  qed
qed

lemma nat_repr_digits: "list_all is_digit (nat_repr n)"
  by (simp add: list_all_iff nat_repr_digits_set)

lemma nat_repr_hd:
  "\<exists>d ds. nat_repr n = d # ds \<and> (if n = 0 then d = 0x30 \<and> ds = [] else is_digit19 d)"
proof (induction n rule: nat_repr.induct)
  case (1 n)
  show ?case
  proof (cases "n < 10")
    case True
    then show ?thesis
      by (subst nat_repr.simps) (auto simp: is_digit19_def)
  next
    case False
    with 1 obtain d ds where "nat_repr (n div 10) = d # ds" "is_digit19 d"
      by (auto split: if_splits)
    with False show ?thesis
      by (subst nat_repr.simps) auto
  qed
qed

lemma digits_nat_snoc: "digits_nat (ds @ [d]) = 10 * digits_nat ds + (d - 0x30)"
  by (simp add: digits_nat_def)

lemma digits_nat_repr: "digits_nat (nat_repr n) = n"
proof (induction n rule: nat_repr.induct)
  case (1 n)
  show ?case
  proof (cases "n < 10")
    case True
    then show ?thesis
      by (subst nat_repr.simps) (simp add: digits_nat_def)
  next
    case False
    with 1 have "digits_nat (nat_repr (n div 10)) = n div 10" by simp
    with False show ?thesis
      by (subst nat_repr.simps) (simp add: digits_nat_snoc)
  qed
qed

lemma takeWhile_all: "list_all P xs \<Longrightarrow> takeWhile P xs = xs"
  by (induction xs) auto

lemma dropWhile_all: "list_all P xs \<Longrightarrow> dropWhile P xs = []"
  by (induction xs) auto

lemma match_digits_nat_repr: "match_digits (nat_repr n) = Some (nat_repr n, [])"
proof -
  from nat_repr_hd [of n] obtain d ds where
    r: "nat_repr n = d # ds" "if n = 0 then d = 0x30 \<and> ds = [] else is_digit19 d" by blast
  from nat_repr_digits [of n] r(1) have ds: "list_all is_digit ds" by simp
  show ?thesis
  proof (cases "n = 0")
    case True
    with r show ?thesis by simp
  next
    case False
    with r have "is_digit19 d" by simp
    then have "d \<noteq> 0x30" by (simp add: is_digit19_def)
    with r(1) \<open>is_digit19 d\<close> ds show ?thesis
      by (simp add: takeWhile_all dropWhile_all)
  qed
qed

lemma nat_repr_not_minus: "nat_repr n = d # ds \<Longrightarrow> d \<noteq> 0x2D"
  using nat_repr_digits [of n] by (auto simp: is_digit_def)

lemma match_integer_int_repr: "match_integer (int_repr i) = Some (int_repr i, [])"
proof (cases "i < 0")
  case True
  then show ?thesis by (simp add: int_repr_def match_digits_nat_repr)
next
  case False
  obtain d ds where r: "nat_repr (nat i) = d # ds" using nat_repr_hd [of "nat i"] by blast
  from nat_repr_not_minus [OF r] match_digits_nat_repr [of "nat i"] r False
  show ?thesis by (simp add: int_repr_def)
qed

lemma py_int_int_repr: "py_int (int_repr i) = i"
proof (cases "i < 0")
  case True
  then show ?thesis by (simp add: int_repr_def digits_nat_repr)
next
  case False
  obtain d ds where r: "nat_repr (nat i) = d # ds" using nat_repr_hd [of "nat i"] by blast
  from digits_nat_repr [of "nat i"] r have "digits_nat (d # ds) = nat i" by simp
  with nat_repr_not_minus [OF r] r False show ?thesis by (simp add: int_repr_def)
qed

lemma match_number_int_repr: "match_number (int_repr i) = Some (PInt i, [])"
  by (simp add: match_number_def match_integer_int_repr py_int_int_repr)

lemma match_number_whole:
  assumes "match_number lit = Some (v, [])" and "delim t"
  shows "match_number (lit @ t) = Some (v, t)"
  using match_number_stable [OF assms(1)] assms(2) by auto

lemma match_number_first: "match_number s = Some r \<Longrightarrow> \<exists>c cs. s = c # cs \<and> (is_digit c \<or> c = 0x2D)"
  by (cases s)
    (auto simp: match_number_def is_digit_def is_digit19_def split: option.splits if_splits)

lemma scan_constant_number:
  assumes "match_number lit = Some (v, [])" and "delim t"
  shows "scan_constant (lit @ t) = Inr (v, t)"
proof -
  from match_number_first [OF assms(1)] obtain c cs where
    c: "lit = c # cs" "is_digit c \<or> c = 0x2D" by blast
  from match_number_whole [OF assms] c show ?thesis
    by (auto simp: scan_constant_def ustr_def is_digit_def)
qed

subsection \<open>Strings\<close>

lemma hexval_hexdigit: "d < 16 \<Longrightarrow> hexval (hexdigit d) = Some d"
  by (auto simp: hexval_def hexdigit_def)

lemma hex4_value:
  assumes "(n::nat) < 65536"
  shows "((n div 4096 mod 16 * 16 + n div 256 mod 16) * 16 + n div 16 mod 16) * 16 + n mod 16 = n"
proof -
  let ?q1 = "n div 16"
  let ?q2 = "?q1 div 16"
  let ?q3 = "?q2 div 16"
  have d2: "n div 256 = ?q2" by (simp add: div_mult2_eq [symmetric])
  have d3: "n div 4096 = ?q3" by (simp add: div_mult2_eq [symmetric])
  from assms have "?q3 < 16" by (simp add: d3 [symmetric] less_mult_imp_div_less)
  then have m3: "?q3 mod 16 = ?q3" by simp
  have "?q3 * 16 + ?q2 mod 16 = ?q2" by (rule div_mult_mod_eq)
  moreover have "?q2 * 16 + ?q1 mod 16 = ?q1" by (rule div_mult_mod_eq)
  moreover have "?q1 * 16 + n mod 16 = n" by (rule div_mult_mod_eq)
  ultimately show ?thesis by (simp only: d2 d3 m3)
qed

lemma decode_hex4: "n < 65536 \<Longrightarrow> decode_uXXXX (hex4 n @ r) = Some n"
proof -
  assume n: "n < 65536"
  have m: "n div 4096 mod 16 < 16" "n div 256 mod 16 < 16" "n div 16 mod 16 < 16" "n mod 16 < 16"
    by simp_all
  have "decode_uXXXX (hex4 n @ r) =
      Some (((n div 4096 mod 16 * 16 + n div 256 mod 16) * 16 + n div 16 mod 16) * 16 + n mod 16)"
    by (simp add: hex4_def hexval_hexdigit [OF m(1)] hexval_hexdigit [OF m(2)]
        hexval_hexdigit [OF m(3)] hexval_hexdigit [OF m(4)])
  then show ?thesis by (simp only: hex4_value [OF n])
qed

lemma hex4_decode:
  assumes "n < 65536"
  shows "\<exists>a b c d. hex4 n = [a, b, c, d] \<and> (\<forall>r. decode_uXXXX (a # b # c # d # r) = Some n)"
  using decode_hex4 [OF assms] by (simp add: hex4_def)

lemma scanstring_escape_ascii:
  assumes "scalar c"
  shows "scanstring (escape_ascii c @ t) = chunk c (scanstring t)"
proof -
  consider (special) "c = 0x5C \<or> c = 0x22 \<or> c = 0x08 \<or> c = 0x0C \<or> c = 0x0A \<or> c = 0x0D \<or> c = 0x09"
    | (plain) "c \<noteq> 0x5C" "c \<noteq> 0x22" "0x20 \<le> c" "c \<le> 0x7E"
    | (bmp) "c \<noteq> 0x5C" "c \<noteq> 0x22" "c \<noteq> 0x08" "c \<noteq> 0x0C" "c \<noteq> 0x0A" "c \<noteq> 0x0D" "c \<noteq> 0x09"
        "\<not> (0x20 \<le> c \<and> c \<le> 0x7E)" "c < 0x10000"
    | (astral) "\<not> (0x20 \<le> c \<and> c \<le> 0x7E)" "\<not> c < 0x10000"
    by linarith
  then show ?thesis
  proof cases
    case special
    then show ?thesis
      by (auto simp: escape_ascii_def BACKSLASH_def)
  next
    case plain
    then show ?thesis
      by (auto simp: escape_ascii_def)
  next
    case bmp
    from hex4_decode [OF bmp(9)] obtain a b x d where
      h: "hex4 c = [a, b, x, d]" "\<And>r. decode_uXXXX (a # b # x # d # r) = Some c"
      by blast
    from assms have ns: "\<not> (0xD800 \<le> c \<and> c \<le> 0xDBFF)"
      by (auto simp: scalar_def)
    from bmp have e: "escape_ascii c = 0x5C # 0x75 # hex4 c"
      by (simp add: escape_ascii_def)
    show ?thesis
      unfolding e h(1) using h(2) ns by (auto simp del: decode_uXXXX.simps)
  next
    case astral
    define n where "n = c - 0x10000"
    from assms astral have n: "n < 0x100000" "c = 0x10000 + n"
      by (auto simp: scalar_def n_def)
    define s1 where "s1 = 0xD800 + n div 1024 mod 1024"
    define s2 where "s2 = 0xDC00 + n mod 1024"
    have r1: "0xD800 \<le> s1" "s1 \<le> 0xDBFF" "s1 < 65536"
      by (simp_all add: s1_def) 
    have r2: "0xDC00 \<le> s2" "s2 \<le> 0xDFFF" "s2 < 65536"
      by (simp_all add: s2_def)
    from n(1) have "n div 1024 < 1024" by simp
    then have "n div 1024 mod 1024 = n div 1024" by simp
    then have join: "0x10000 + ((s1 - 0xD800) * 1024 + (s2 - 0xDC00)) = c"
      by (simp add: s1_def s2_def n(2))
    from hex4_decode [OF r1(3)] obtain a1 b1 c1 d1 where
      h1: "hex4 s1 = [a1, b1, c1, d1]" "\<And>r. decode_uXXXX (a1 # b1 # c1 # d1 # r) = Some s1"
      by blast
    from hex4_decode [OF r2(3)] obtain a2 b2 c2 d2 where
      h2: "hex4 s2 = [a2, b2, c2, d2]" "\<And>r. decode_uXXXX (a2 # b2 # c2 # d2 # r) = Some s2"
      by blast
    from astral have e: "escape_ascii c = 0x5C # 0x75 # hex4 s1 @ 0x5C # 0x75 # hex4 s2"
      by (auto simp: escape_ascii_def s1_def s2_def n_def)
    show ?thesis
      unfolding e h1(1) h2(1) using h1(2) h2(2) r1 r2 join
      by (auto simp del: decode_uXXXX.simps)
  qed
qed

lemma scanstring_encoded:
  "list_all scalar s \<Longrightarrow> scanstring (concat (map escape_ascii s) @ 0x22 # rest) = Inr (s, rest)"
proof (induction s)
  case Nil
  then show ?case by simp
next
  case (Cons c s)
  then show ?case
    by (simp add: scanstring_escape_ascii chunk_def)
qed

lemma scan_once_encoded_string:
  "list_all scalar s \<Longrightarrow> scan_once (encode_basestring_ascii s @ rest) = Inr (PStr s, rest)"
  by (simp add: encode_basestring_ascii_def scan_once_string scanstring_encoded)

subsection \<open>Values\<close>

lemma value_start_app: "value_start s \<Longrightarrow> value_start (s @ t)"
  by (cases s) auto

lemma skip_ws_value_start: "value_start s \<Longrightarrow> skip_ws s = s"
  by (cases s) (auto simp: skip_ws_def)

lemma skip_ws_space: "skip_ws (0x20 # s) = skip_ws s"
  by (simp add: skip_ws_def is_ws_def)

lemma skip_ws_not_ws: "\<not> is_ws c \<Longrightarrow> skip_ws (c # s) = c # s"
  by (simp add: skip_ws_def)

lemma json_dumps_start: "json_value v \<Longrightarrow> value_start (json_dumps v)"
proof (cases v)
  case (PInt i)
  obtain d ds where r: "nat_repr (nat \<bar>i\<bar>) = d # ds" using nat_repr_hd by blast
  from nat_repr_digits [of "nat \<bar>i\<bar>"] r have "is_digit d" by simp
  with r PInt show ?thesis
    by (cases "i < 0") (auto simp: int_repr_def is_ws_def is_digit_def abs_if)
next
  case (PFloat lit)
  assume "json_value v"
  with PFloat have "match_number lit = Some (PFloat lit, [])" by (simp add: float_literal_def)
  from match_number_first [OF this] PFloat show ?thesis
    by (auto simp: is_ws_def is_digit_def)
qed (auto simp: ustr_def is_ws_def encode_basestring_ascii_def)

lemma dict_setitem_fresh: "k \<notin> fst ` set d \<Longrightarrow> dict_setitem d k v = d @ [(k, v)]"
  by (induction d) auto

lemma foldl_dict_setitem:
  "distinct (map fst (acc @ kvs)) \<Longrightarrow>
     foldl (\<lambda>d kv. dict_setitem d (fst kv) (snd kv)) acc kvs = acc @ kvs"
proof (induction kvs arbitrary: acc)
  case Nil
  then show ?case by simp
next
  case (Cons kv kvs)
  from Cons.prems have "fst kv \<notin> fst ` set acc" by auto
  then have "dict_setitem acc (fst kv) (snd kv) = acc @ [kv]"
    by (simp add: dict_setitem_fresh)
  with Cons.IH [of "acc @ [kv]"] Cons.prems show ?case by simp
qed

lemma dict_of_pairs_distinct: "distinct (map fst kvs) \<Longrightarrow> dict_of_pairs kvs = kvs"
  using foldl_dict_setitem [of "[]" kvs] by (simp add: dict_of_pairs_def)

lemma delim_simps: "delim (0x2C # t)" "delim (0x5D # t)" "delim (0x7D # t)"
  by simp_all

lemma JSONArray_loop_encoded:
  assumes "\<forall>v\<in>set vs. \<forall>t. delim t \<longrightarrow> scan_once (json_dumps v @ t) = Inr (v, t)"
    and "\<forall>v\<in>set vs. json_value v"
    and "vs \<noteq> []"
  shows "JSONArray_loop (join_sep (ustr '', '') (map json_dumps vs) @ 0x5D # t) = Inr (vs, t)
         \<and> value_start (join_sep (ustr '', '') (map json_dumps vs) @ 0x5D # t)"
  using assms
proof (induction vs)
  case Nil
  then show ?case by simp
next
  case (Cons v vs)
  have st: "value_start (json_dumps v)" using Cons.prems(2) by (simp add: json_dumps_start)
  show ?case
  proof (cases vs)
    case Nil
    have "scan_once (json_dumps v @ 0x5D # t) = Inr (v, 0x5D # t)"
      using Cons.prems(1) by simp
    then have "JSONArray_loop (json_dumps v @ 0x5D # t) = Inr ([v], t)"
      by (rule JSONArray_loop_last) (simp add: skip_ws_not_ws is_ws_def)
    with Nil st show ?thesis by (simp add: value_start_app)
  next
    case (Cons w ws)
    let ?rest = "join_sep (ustr '', '') (map json_dumps vs) @ 0x5D # t"
    have ih: "JSONArray_loop ?rest = Inr (vs, t)" "value_start ?rest"
      using Cons.IH Cons.prems Cons by auto
    have 1: "scan_once (json_dumps v @ 0x2C # 0x20 # ?rest) = Inr (v, 0x2C # 0x20 # ?rest)"
      using Cons.prems(1) by simp
    have 2: "skip_ws (0x2C # 0x20 # ?rest) = 0x2C # 0x20 # ?rest"
      by (simp add: skip_ws_not_ws is_ws_def)
    have 3: "skip_ws (0x20 # ?rest) = ?rest"
      using ih(2) by (simp add: skip_ws_space skip_ws_value_start)
    from JSONArray_loop_more [OF 1 2] 3 ih(1)
    have "JSONArray_loop (json_dumps v @ 0x2C # 0x20 # ?rest) = Inr (v # vs, t)" by simp
    with Cons st show ?thesis by (simp add: ustr_def value_start_app)
  qed
qed

lemma dumps_item_eq:
  "dumps_item (k, v) = 0x22 # concat (map escape_ascii k) @ 0x22 # 0x3A # 0x20 # json_dumps v"
  by (simp add: dumps_item_def encode_basestring_ascii_def ustr_def)

lemma JSONObject_loop_encoded:
  assumes "\<forall>kv\<in>set kvs. \<forall>t. delim t \<longrightarrow> scan_once (json_dumps (snd kv) @ t) = Inr (snd kv, t)"
    and "\<forall>kv\<in>set kvs. json_value (snd kv) \<and> list_all scalar (fst kv)"
    and "kvs \<noteq> []"
  shows "\<exists>b. join_sep (ustr '', '') (map dumps_item kvs) @ 0x7D # t = 0x22 # b
             \<and> JSONObject_loop b = Inr (kvs, t)"
  using assms
proof (induction kvs)
  case Nil
  then show ?case by simp
next
  case (Cons kv kvs)
  note IH = Cons.IH and prems = Cons.prems
  obtain k v where kv: "kv = (k, v)" by (cases kv)
  from Cons.prems(2) kv have jv: "json_value v" and sk: "list_all scalar k" by simp_all
  have st: "value_start (json_dumps v)" using jv by (rule json_dumps_start)
  let ?key = "concat (map escape_ascii k)"
  have key: "\<And>r. scanstring (?key @ 0x22 # r) = Inr (k, r)"
    using sk by (rule scanstring_encoded)
  have colon: "\<And>r. skip_ws (0x3A # r) = 0x3A # r"
    by (simp add: skip_ws_not_ws is_ws_def)
  have val: "\<And>r. skip_ws (0x20 # json_dumps v @ r) = json_dumps v @ r"
    using st by (simp add: skip_ws_space skip_ws_value_start value_start_app)
  show ?case
  proof (cases kvs)
    case Nil
    let ?b = "?key @ 0x22 # 0x3A # 0x20 # json_dumps v @ 0x7D # t"
    have so: "scan_once (skip_ws (0x20 # json_dumps v @ 0x7D # t)) = Inr (v, 0x7D # t)"
      using prems(1) kv by (simp add: val)
    have "JSONObject_loop ?b = Inr ([(k, v)], t)"
      by (rule JSONObject_loop_last [OF key colon so]) (simp add: skip_ws_not_ws is_ws_def)
    with Nil kv show ?thesis by (simp add: dumps_item_eq)
  next
    case (Cons kv' kvs')
    have "\<exists>b'. join_sep (ustr '', '') (map dumps_item kvs) @ 0x7D # t = 0x22 # b'
             \<and> JSONObject_loop b' = Inr (kvs, t)"
    proof (rule IH)
      show "kvs \<noteq> []" using Cons by simp
      show "\<forall>kv\<in>set kvs. \<forall>t. delim t \<longrightarrow> scan_once (json_dumps (snd kv) @ t) = Inr (snd kv, t)"
        using prems(1) by simp
      show "\<forall>kv\<in>set kvs. json_value (snd kv) \<and> list_all scalar (fst kv)"
        using prems(2) by simp
    qed
    then obtain b' where
      ih: "join_sep (ustr '', '') (map dumps_item kvs) @ 0x7D # t = 0x22 # b'"
        "JSONObject_loop b' = Inr (kvs, t)"
      by blast
    let ?b = "?key @ 0x22 # 0x3A # 0x20 # json_dumps v @ 0x2C # 0x20 # 0x22 # b'"
    have so: "scan_once (skip_ws (0x20 # json_dumps v @ 0x2C # 0x20 # 0x22 # b')) =
        Inr (v, 0x2C # 0x20 # 0x22 # b')"
      using prems(1) kv by (simp add: val)
    have c1: "skip_ws (0x2C # 0x20 # 0x22 # b') = 0x2C # 0x20 # 0x22 # b'"
      by (simp add: skip_ws_not_ws is_ws_def)
    have c2: "skip_ws (0x20 # 0x22 # b') = 0x22 # b'"
      by (simp add: skip_ws_space skip_ws_not_ws is_ws_def)
    have "JSONObject_loop ?b = Inr ((k, v) # kvs, t)"
      by (rule JSONObject_loop_more [OF key colon so c1 c2 ih(2)])
    moreover have "join_sep (ustr '', '') (map dumps_item (kv # kvs)) @ 0x7D # t = 0x22 # ?b"
      using Cons kv ih(1) by (simp add: dumps_item_eq ustr_def)
    ultimately show ?thesis unfolding kv by (intro exI [of _ ?b] conjI)
  qed
qed

lemma json_dumps_PDict:
  "json_dumps (PDict kvs) = 0x7B # join_sep (ustr '', '') (map dumps_item kvs) @ [0x7D]"
  by (simp add: dumps_item_def [abs_def])

lemma scan_once_json_dumps:
  "json_value v \<Longrightarrow> delim t \<Longrightarrow> scan_once (json_dumps v @ t) = Inr (v, t)"
proof (induction v arbitrary: t)
  case PNone
  then show ?case by (simp add: scan_once_constant ustr_def scan_constant_def)
next
  case (PBool b)
  then show ?case by (cases b) (simp_all add: scan_once_constant ustr_def scan_constant_def)
next
  case (PInt i)
  obtain d ds where r: "nat_repr (nat \<bar>i\<bar>) = d # ds" using nat_repr_hd by blast
  from nat_repr_digits [of "nat \<bar>i\<bar>"] r have "is_digit d" by simp
  with r obtain c cs where c: "int_repr i = c # cs" "c \<noteq> 0x22" "c \<noteq> 0x7B" "c \<noteq> 0x5B"
    by (cases "i < 0") (auto simp: int_repr_def is_digit_def abs_if)
  from scan_constant_number [OF match_number_int_repr [of i] PInt.prems(2)] c
  show ?case by (simp add: scan_once_constant)
next
  case (PFloat lit)
  then have m: "match_number lit = Some (PFloat lit, [])" by (simp add: float_literal_def)
  from match_number_first [OF m] obtain c cs where
    c: "lit = c # cs" "c \<noteq> 0x22" "c \<noteq> 0x7B" "c \<noteq> 0x5B"
    by (auto simp: is_digit_def)
  from scan_constant_number [OF m PFloat.prems(2)] c
  show ?case by (simp add: scan_once_constant)
next
  case (PStr s)
  then show ?case by (simp add: scan_once_encoded_string)
next
  case (PList vs)
  show ?case
  proof (cases "vs = []")
    case True
    then show ?thesis by (simp add: scan_once_array skip_ws_not_ws is_ws_def)
  next
    case False
    have e: "\<forall>v\<in>set vs. \<forall>t. delim t \<longrightarrow> scan_once (json_dumps v @ t) = Inr (v, t)"
      using PList.IH PList.prems(1) by (auto simp: list_all_iff)
    have j: "\<forall>v\<in>set vs. json_value v"
      using PList.prems(1) by (auto simp: list_all_iff)
    let ?body = "join_sep (ustr '', '') (map json_dumps vs) @ 0x5D # t"
    from JSONArray_loop_encoded [OF e j False, of t]
    have l: "JSONArray_loop ?body = Inr (vs, t)" and st: "value_start ?body" by simp_all
    from st obtain q r where qr: "?body = q # r" "q \<noteq> 0x5D" "\<not> is_ws q"
      by (cases ?body) auto
    then have "skip_ws ?body = q # r" by (simp add: skip_ws_not_ws)
    with l qr have "scan_once (0x5B # ?body) = Inr (PList vs, t)"
      by (simp add: scan_once_array)
    then show ?thesis by simp
  qed
next
  case (PDict kvs)
  from PDict.prems(1) have dist: "distinct (map fst kvs)" by simp
  show ?case
  proof (cases "kvs = []")
    case True
    then show ?thesis by (simp add: scan_once_object skip_ws_not_ws is_ws_def)
  next
    case False
    have e: "\<forall>kv\<in>set kvs. \<forall>t. delim t \<longrightarrow> scan_once (json_dumps (snd kv) @ t) = Inr (snd kv, t)"
    proof (intro ballI allI impI)
      fix kv t
      assume kv: "kv \<in> set kvs" and t: "delim t"
      from PDict.prems(1) kv have "json_value (snd kv)" by (auto simp: list_all_iff)
      with PDict.IH [of kv "snd kv" t] kv t
      show "scan_once (json_dumps (snd kv) @ t) = Inr (snd kv, t)"
        by (cases kv) simp
    qed
    have j: "\<forall>kv\<in>set kvs. json_value (snd kv) \<and> list_all scalar (fst kv)"
      using PDict.prems(1) by (auto simp: list_all_iff)
    from JSONObject_loop_encoded [OF e j False, of t] obtain b where
      b: "join_sep (ustr '', '') (map dumps_item kvs) @ 0x7D # t = 0x22 # b"
        "JSONObject_loop b = Inr (kvs, t)"
      by blast
    have "skip_ws (0x22 # b) = 0x22 # b" by (simp add: skip_ws_not_ws is_ws_def)
    with b dist have "scan_once (0x7B # 0x22 # b) = Inr (PDict kvs, t)"
      by (simp add: scan_once_object dict_of_pairs_distinct)
    with b(1) show ?thesis by (simp add: json_dumps_PDict del: json_dumps.simps)
  qed
qed

lemma json_loads_json_dumps: "json_value v \<Longrightarrow> json_loads (json_dumps v) = Inr v"
proof -
  assume jv: "json_value v"
  from json_dumps_start [OF jv] obtain c cs where
    c: "json_dumps v = c # cs" "\<not> is_ws c" "c \<noteq> 0xFEFF" by (cases "json_dumps v") auto
  from scan_once_json_dumps [OF jv, of "[]"] have "scan_once (json_dumps v) = Inr (v, [])" by simp
  with c show ?thesis
    by (simp add: json_loads_def skip_ws_not_ws) (simp add: skip_ws_def)
qed

section \<open>The decoder on related texts\<close>

text \<open>
  If the decoder accepts a text, it accepts every text related to it by \<open>sim\<close>, and with
  the same value when nothing was dropped. The inversion rules of \<open>sim\<close> come first, then
  strings, then values by induction along the decoder.
\<close>

inductive_cases sim_NilE: "sim b [] s'"

inductive_cases sim_ConsE: "sim b (c # s) s'"

lemma sim_Nil: "sim b [] s' \<Longrightarrow> list_all is_ws s'"
  by (erule sim_NilE) auto

lemma sim_Cons: "sim b (c # s) s' \<Longrightarrow> c \<noteq> 0x60 \<Longrightarrow> \<exists>t'. s' = c # t' \<and> sim b s t'"
  by (erule sim_ConsE) auto

lemma sim_backtick:
  "sim b (0x60 # s) s' \<Longrightarrow>
     (\<exists>t'. s' = 0x60 # t' \<and> sim b s t') \<or> (b \<and> (\<exists>p s0. s = p @ s0 \<and> list_all plain p \<and> sim True s0 s'))"
  by (erule sim_ConsE) auto

lemma sim_False: "sim False s s' \<Longrightarrow> \<exists>w. list_all is_ws w \<and> s' = s @ w"
proof (induction s arbitrary: s')
  case Nil
  then show ?case by (auto dest: sim_Nil)
next
  case (Cons c s)
  from Cons.prems obtain t' where "s' = c # t'" "sim False s t'"
    by (auto elim: sim_ConsE)
  with Cons.IH show ?case by auto
qed

lemma sim_append: "list_all is_ws w \<Longrightarrow> sim b s (s @ w)"
  by (induction s) (auto intro: sim.intros)

lemma sim_refl: "sim b s s"
  using sim_append [of "[]" b s] by simp

lemma sim_prefix:
  "sim b (p @ s) s' \<Longrightarrow> 0x60 \<notin> set p \<Longrightarrow> \<exists>t'. s' = p @ t' \<and> sim b s t'"
proof (induction p arbitrary: s')
  case Nil
  then show ?case by simp
next
  case (Cons c p)
  from Cons.prems sim_Cons [of b c "p @ s" s'] obtain t where t: "s' = c # t" "sim b (p @ s) t"
    by auto
  from Cons.IH [OF t(2)] Cons.prems(2) t(1) show ?case by auto
qed

lemma sim_delim: "sim b s s' \<Longrightarrow> delim s \<Longrightarrow> delim s'"
proof (cases s)
  case Nil
  assume "sim b s s'"
  with Nil have "list_all is_ws s'" by (auto dest: sim_Nil)
  then show "delim s'" by (cases s') auto
next
  case (Cons c cs)
  assume s: "sim b s s'" and d: "delim s"
  from d Cons have "c \<noteq> 0x60" by (auto simp: is_ws_def)
  with s Cons sim_Cons [of b c cs s'] obtain t where "s' = c # t" by auto
  with d Cons show "delim s'" by simp
qed

lemma sim_all_ws: "sim b s s' \<Longrightarrow> skip_ws s = [] \<Longrightarrow> skip_ws s' = []"
proof (induction s arbitrary: s')
  case Nil
  then have "list_all is_ws s'" by (auto dest: sim_Nil)
  then show ?case by (simp add: skip_ws_def dropWhile_all)
next
  case (Cons c s)
  from Cons.prems(2) have ws: "is_ws c" "skip_ws s = []"
    by (auto simp: skip_ws_def split: if_splits)
  then have "c \<noteq> 0x60" by (auto simp: is_ws_def)
  with Cons.prems(1) sim_Cons [of b c s s'] obtain t where t: "s' = c # t" "sim b s t" by auto
  from Cons.IH [OF t(2) ws(2)] t(1) ws(1) show ?case by (simp add: skip_ws_def)
qed

lemma skip_ws_sim:
  "sim b s s' \<Longrightarrow> skip_ws s = c # r \<Longrightarrow> c \<noteq> 0x60 \<Longrightarrow> \<exists>r'. skip_ws s' = c # r' \<and> sim b r r'"
proof (induction s arbitrary: s')
  case Nil
  then show ?case by (simp add: skip_ws_def)
next
  case (Cons x xs)
  show ?case
  proof (cases "is_ws x")
    case True
    then have "x \<noteq> 0x60" by (auto simp: is_ws_def)
    with Cons.prems(1) sim_Cons [of b x xs s'] obtain t where t: "s' = x # t" "sim b xs t" by auto
    from Cons.prems(2) True have "skip_ws xs = c # r" by (simp add: skip_ws_def)
    from Cons.IH [OF t(2) this Cons.prems(3)] t(1) True show ?thesis by (simp add: skip_ws_def)
  next
    case False
    with Cons.prems(2) have x: "x = c" "xs = r" by (simp_all add: skip_ws_def)
    with Cons.prems sim_Cons [of b x xs s'] obtain t where t: "s' = x # t" "sim b xs t" by auto
    with False x show ?thesis by (simp add: skip_ws_def)
  qed
qed

lemma skip_ws_delim:
  "skip_ws s = d # r \<Longrightarrow> d = 0x2C \<or> d = 0x5D \<or> d = 0x7D \<Longrightarrow> delim s"
  by (cases s) (auto simp: skip_ws_def split: if_splits)

lemma scanstring_quote: "scanstring (0x22 # cs) = Inr ([], cs)"
  by simp

lemma scanstring_plain: "plain c \<Longrightarrow> scanstring (c # cs) = chunk c (scanstring cs)"
  by (simp add: plain_def)

lemma scanstring_backslash_end: "scanstring [0x5C] = Inl unterminated"
  by simp

lemma scanstring_escape:
  "esc \<noteq> 0x75 \<Longrightarrow>
     scanstring (0x5C # esc # cs) =
       (case BACKSLASH esc of None \<Rightarrow> Inl invalid_escape | Some ch \<Rightarrow> chunk ch (scanstring cs))"
  by simp

lemma scanstring_u:
  "scanstring (0x5C # 0x75 # cs) =
     (case u_escape cs of Inl e \<Rightarrow> Inl e | Inr (ch, n) \<Rightarrow> chunk ch (scanstring (drop n cs)))"
  by (simp add: u_escape_def split: option.splits)

lemma scanstring_control: "c < 0x20 \<Longrightarrow> scanstring (c # cs) = Inl invalid_control"
  by simp

text \<open>From here on the equations above replace the recursive equation of \<open>scanstring\<close>.\<close>

declare scanstring.simps(2) [simp del]

lemma scanstring_cases [consumes 1, case_names quote plain escape u]:
  assumes "scanstring s = Inr (x, rest)"
  obtains
    "s = 0x22 # rest" "x = []"
  | c cs x0 where "s = c # cs" "plain c" "scanstring cs = Inr (x0, rest)" "x = c # x0"
  | esc cs ch x0 where "s = 0x5C # esc # cs" "esc \<noteq> 0x75" "BACKSLASH esc = Some ch"
      "scanstring cs = Inr (x0, rest)" "x = ch # x0"
  | cs ch n x0 where "s = 0x5C # 0x75 # cs" "u_escape cs = Inr (ch, n)"
      "scanstring (drop n cs) = Inr (x0, rest)" "x = ch # x0"
proof (cases s)
  case Nil
  with assms show ?thesis by simp
next
  case (Cons c cs)
  consider "c = 0x22" | "c = 0x5C" | "c \<noteq> 0x22" "c \<noteq> 0x5C" "c < 0x20" | "plain c"
    unfolding plain_def by linarith
  then show ?thesis
  proof cases
    case 1
    with assms Cons that(1) show ?thesis by (simp add: scanstring_quote)
  next
    case 2
    show ?thesis
    proof (cases cs)
      case Nil
      with assms Cons 2 show ?thesis by (simp add: scanstring_backslash_end)
    next
      case (Cons esc cs')
      show ?thesis
      proof (cases "esc = 0x75")
        case True
        with assms \<open>s = c # cs\<close> 2 Cons that(4) [of cs'] show ?thesis
          by (auto simp: scanstring_u split: sum.splits prod.splits dest!: chunk_Inr)
      next
        case False
        with assms \<open>s = c # cs\<close> 2 Cons that(3) [of esc cs'] show ?thesis
          by (auto simp: scanstring_escape split: option.splits dest!: chunk_Inr)
      qed
    qed
  next
    case 3
    with assms Cons show ?thesis by (simp add: scanstring_control)
  next
    case 4
    with assms Cons that(2) [of c cs] show ?thesis
      by (auto simp: scanstring_plain dest!: chunk_Inr)
  qed
qed

lemma chunk_Inr_iff: "chunk c r = Inr (x, rest) \<longleftrightarrow> (\<exists>x0. r = Inr (x0, rest) \<and> x = c # x0)"
  by (auto simp: chunk_def split: sum.splits)

lemma decode_uXXXX_Some:
  assumes "decode_uXXXX cs = Some uni"
  shows "\<exists>h r. cs = h @ r \<and> length h = 4 \<and> 0x60 \<notin> set h \<and> (\<forall>t. decode_uXXXX (h @ t) = Some uni)"
proof -
  from assms obtain a b c d r where cs: "cs = a # b # c # d # r"
    by (cases cs rule: decode_uXXXX.cases) auto
  from assms cs have h: "hexval a \<noteq> None" "hexval b \<noteq> None" "hexval c \<noteq> None" "hexval d \<noteq> None"
    by (auto split: option.splits)
  have nb: "\<And>y. hexval y \<noteq> None \<Longrightarrow> y \<noteq> 0x60"
    by (auto simp: hexval_def)
  from assms cs have "\<forall>t. decode_uXXXX ([a, b, c, d] @ t) = Some uni" by simp
  with cs h nb show ?thesis
    by (intro exI [of _ "[a, b, c, d]"] exI [of _ r]) auto
qed

lemma decode_uXXXX_append: "decode_uXXXX cs = Some uni \<Longrightarrow> decode_uXXXX (cs @ w) = Some uni"
  using decode_uXXXX_Some [of cs uni] by auto

lemma decode_uXXXX_length: "decode_uXXXX cs = Some uni \<Longrightarrow> 4 \<le> length cs"
  using decode_uXXXX_Some [of cs uni] by auto

text \<open>The look-ahead for a second escape does not see past a string that ends.\<close>

lemma lookahead_append:
  assumes "scanstring r = Inr (x, rest)"
  shows "take 2 (r @ w) = [0x5C, 0x75] \<longleftrightarrow> take 2 r = [0x5C, 0x75]"
  using assms
proof (cases rule: scanstring_cases)
  case quote
  then show ?thesis by simp
next
  case (plain c cs x0)
  then show ?thesis by (auto simp: plain_def)
next
  case (escape esc cs ch x0)
  then show ?thesis by simp
next
  case (u cs ch n x0)
  then show ?thesis by simp
qed

lemma u_escape_append:
  assumes "u_escape cs = Inr (ch, n)" and "scanstring (drop n cs) = Inr (x0, rest)"
  shows "u_escape (cs @ w) = Inr (ch, n) \<and> n \<le> length cs"
proof -
  from assms(1) obtain uni where d: "decode_uXXXX cs = Some uni"
    by (auto simp: u_escape_def split: option.splits)
  note l = decode_uXXXX_length [OF d]
  note da = decode_uXXXX_append [OF d, of w]
  show ?thesis
  proof (cases "0xD800 \<le> uni \<and> uni \<le> 0xDBFF \<and> take 2 (drop 4 cs) = [0x5C, 0x75]")
    case True
    with assms(1) d obtain uni2 where d2: "decode_uXXXX (drop 6 cs) = Some uni2"
      by (auto simp: u_escape_def split: option.splits)
    from decode_uXXXX_length [OF d2] have l10: "10 \<le> length cs" by simp
    from decode_uXXXX_append [OF d2, of w] l10 have d2a: "decode_uXXXX (drop 6 (cs @ w)) = Some uni2"
      by simp
    from True l10 have "take 2 (drop 4 (cs @ w)) = [0x5C, 0x75]" by simp
    with True assms(1) d d2 da d2a l10 show ?thesis
      by (auto simp: u_escape_def split: if_splits)
  next
    case False
    with assms(1) d have n: "n = 4" "ch = uni" by (auto simp: u_escape_def)
    from lookahead_append [OF assms(2) [unfolded n], of w] l
    have "take 2 (drop 4 (cs @ w)) = [0x5C, 0x75] \<longleftrightarrow> take 2 (drop 4 cs) = [0x5C, 0x75]"
      by simp
    with False d da n l show ?thesis by (auto simp: u_escape_def)
  qed
qed

lemma scanstring_append:
  "scanstring s = Inr (x, rest) \<Longrightarrow> scanstring (s @ w) = Inr (x, rest @ w)"
proof (induction "length s" arbitrary: s x rule: less_induct)
  case less
  from less.prems show ?case
  proof (cases rule: scanstring_cases)
    case quote
    then show ?thesis by (simp add: scanstring_quote)
  next
    case (plain c cs x0)
    with less.hyps [of cs x0] show ?thesis by (simp add: scanstring_plain chunk_def)
  next
    case (escape esc cs ch x0)
    with less.hyps [of cs x0] show ?thesis by (simp add: scanstring_escape chunk_def)
  next
    case (u cs ch n x0)
    from u_escape_append [OF u(2,3), of w] have ua: "u_escape (cs @ w) = Inr (ch, n)" "n \<le> length cs"
      by simp_all
    from less.hyps [of "drop n cs" x0] u(1,3)
    have "scanstring (drop n cs @ w) = Inr (x0, rest @ w)" by simp
    with u ua show ?thesis by (simp add: scanstring_u chunk_def)
  qed
qed

lemma u_escape_low:
  assumes "decode_uXXXX q = Some uni2" and "0xDC00 \<le> uni2" and "uni2 \<le> 0xDFFF"
  shows "u_escape q = Inr (uni2, 4)"
  using assms by (simp add: u_escape_def)

lemma take2_drop:
  assumes "take 2 r = [a, b]"
  shows "r = a # b # drop 2 r"
proof -
  have "r = take 2 r @ drop 2 r" by simp
  with assms show ?thesis by simp
qed

text \<open>
  A string that continues after a \<^verbatim>\<open>\u\<close> escape also continues after its four digits,
  and the other way round, whether or not the escape is joined with the next one.
\<close>

lemma scanstring_u_orig:
  assumes "scanstring (0x5C # 0x75 # cs) = Inr (x, rest)"
  shows "\<exists>uni x0. decode_uXXXX cs = Some uni \<and> scanstring (drop 4 cs) = Inr (x0, rest)"
proof -
  from assms obtain ch n x0 where u: "u_escape cs = Inr (ch, n)"
    and s: "scanstring (drop n cs) = Inr (x0, rest)"
    by (auto simp: scanstring_u chunk_Inr_iff split: sum.splits prod.splits)
  from u obtain uni where d: "decode_uXXXX cs = Some uni"
    by (auto simp: u_escape_def split: option.splits)
  show ?thesis
  proof (cases "n = 4")
    case True
    with d s show ?thesis by auto
  next
    case False
    with u d obtain uni2 where j: "take 2 (drop 4 cs) = [0x5C, 0x75]"
      "decode_uXXXX (drop 6 cs) = Some uni2" "0xDC00 \<le> uni2" "uni2 \<le> 0xDFFF" "n = 10"
      by (auto simp: u_escape_def split: option.splits if_splits)
    from take2_drop [OF j(1)] have r: "drop 4 cs = 0x5C # 0x75 # drop 6 cs" by simp
    from u_escape_low [OF j(2,3,4)] s j(5)
    have "scanstring (0x5C # 0x75 # drop 6 cs) = Inr (uni2 # x0, rest)"
      by (simp add: scanstring_u chunk_def)
    with r d show ?thesis by auto
  qed
qed

lemma scanstring_u_intro:
  assumes "decode_uXXXX cs = Some uni" and "scanstring (drop 4 cs) = Inr (x', rest')"
  shows "\<exists>x''. scanstring (0x5C # 0x75 # cs) = Inr (x'', rest')"
proof (cases "0xD800 \<le> uni \<and> uni \<le> 0xDBFF \<and> take 2 (drop 4 cs) = [0x5C, 0x75]")
  case False
  with assms have "u_escape cs = Inr (uni, 4)" by (auto simp: u_escape_def)
  with assms(2) show ?thesis by (simp add: scanstring_u chunk_def)
next
  case True
  from take2_drop [of "drop 4 cs"] True have r: "drop 4 cs = 0x5C # 0x75 # drop 6 cs" by simp
  from assms(2) [unfolded r] obtain ch2 n2 x2 where
    u2: "u_escape (drop 6 cs) = Inr (ch2, n2)"
    and s2: "scanstring (drop n2 (drop 6 cs)) = Inr (x2, rest')"
    by (auto simp: scanstring_u chunk_Inr_iff split: sum.splits prod.splits)
  from u2 obtain uni2 where d2: "decode_uXXXX (drop 6 cs) = Some uni2"
    by (auto simp: u_escape_def split: option.splits)
  show ?thesis
  proof (cases "0xDC00 \<le> uni2 \<and> uni2 \<le> 0xDFFF")
    case low: True
    with d2 u2 have "n2 = 4" by (simp add: u_escape_low)
    with s2 have s10: "scanstring (drop 10 cs) = Inr (x2, rest')" by simp
    from True low assms(1) d2
    have "u_escape cs = Inr (0x10000 + ((uni - 0xD800) * 1024 + (uni2 - 0xDC00)), 10)"
      by (simp add: u_escape_def)
    with s10 show ?thesis by (simp add: scanstring_u chunk_def)
  next
    case False
    with True assms(1) d2 have "u_escape cs = Inr (uni, 4)" by (simp add: u_escape_def)
    with assms(2) show ?thesis by (simp add: scanstring_u chunk_def)
  qed
qed

lemma scanstring_plain_prefix:
  "list_all plain p \<Longrightarrow> scanstring (p @ s) = Inr (x, rest) \<Longrightarrow> \<exists>x0. scanstring s = Inr (x0, rest)"
proof (induction p arbitrary: x)
  case Nil
  then show ?case by simp
next
  case (Cons c p)
  then show ?case by (auto simp: scanstring_plain chunk_Inr_iff)
qed

lemma BACKSLASH_not_backtick: "BACKSLASH esc = Some ch \<Longrightarrow> esc \<noteq> 0x60"
  by (auto simp: BACKSLASH_def split: if_splits)

lemma scanstring_sim_True:
  "sim True s s' \<Longrightarrow> scanstring s = Inr (x, rest) \<Longrightarrow>
     \<exists>x' rest'. scanstring s' = Inr (x', rest') \<and> sim True rest rest'"
proof (induction "length s" arbitrary: s s' x rule: less_induct)
  case less
  note sim = less.prems(1)
  from less.prems(2) show ?case
  proof (cases rule: scanstring_cases)
    case quote
    with sim sim_Cons [of True "0x22" rest s'] show ?thesis
      by (auto simp: scanstring_quote)
  next
    case (plain c cs x0)
    have keep: ?thesis if t: "s' = c # t'" "sim True cs t'" for t'
    proof -
      from less.hyps [OF _ t(2) plain(3)] plain(1) obtain x' rest' where
        "scanstring t' = Inr (x', rest')" "sim True rest rest'" by auto
      with t(1) plain(2) show ?thesis by (auto simp: scanstring_plain chunk_def)
    qed
    show ?thesis
    proof (cases "c = 0x60")
      case False
      with sim plain(1) sim_Cons [of True c cs s'] keep show ?thesis by auto
    next
      case True
      with sim plain(1) sim_backtick [of True cs s']
      consider t' where "s' = c # t'" "sim True cs t'"
        | p s0 where "cs = p @ s0" "list_all plain p" "sim True s0 s'"
        by auto
      then show ?thesis
      proof cases
        case 1
        then show ?thesis by (rule keep)
      next
        case 2
        from scanstring_plain_prefix [OF 2(2) plain(3) [unfolded 2(1)]] obtain x1 where
          "scanstring s0 = Inr (x1, rest)" by blast
        from less.hyps [OF _ 2(3) this] plain(1) 2(1) show ?thesis by auto
      qed
    qed
  next
    case (escape esc cs ch x0)
    from sim escape(1) sim_Cons [of True "0x5C" "esc # cs" s'] obtain t1 where
      t1: "s' = 0x5C # t1" "sim True (esc # cs) t1" by auto
    from t1(2) BACKSLASH_not_backtick [OF escape(3)] sim_Cons [of True esc cs t1] obtain t2 where
      t2: "t1 = esc # t2" "sim True cs t2" by auto
    from less.hyps [OF _ t2(2) escape(4)] escape(1) obtain x' rest' where
      "scanstring t2 = Inr (x', rest')" "sim True rest rest'" by auto
    with t1(1) t2(1) escape(2,3) show ?thesis
      by (auto simp: scanstring_escape chunk_def)
  next
    case (u cs ch n x0)
    from sim u(1) sim_prefix [of True "[0x5C, 0x75]" cs s'] obtain cs' where
      c': "s' = 0x5C # 0x75 # cs'" "sim True cs cs'" by auto
    from scanstring_u_orig [OF less.prems(2) [unfolded u(1)]] obtain uni x1 where
      d: "decode_uXXXX cs = Some uni" and s4: "scanstring (drop 4 cs) = Inr (x1, rest)" by blast
    from decode_uXXXX_Some [OF d] obtain h r where
      h: "cs = h @ r" "length h = 4" "0x60 \<notin> set h" "\<And>t. decode_uXXXX (h @ t) = Some uni"
      by blast
    from c'(2) h(1,3) sim_prefix [of True h r cs'] obtain r' where
      r': "cs' = h @ r'" "sim True r r'" by auto
    from s4 h(1,2) have sr: "scanstring r = Inr (x1, rest)" by simp
    from less.hyps [OF _ r'(2) sr] u(1) h(1) obtain x' rest' where
      x': "scanstring r' = Inr (x', rest')" "sim True rest rest'" by auto
    from x'(1) r'(1) h(2) have "scanstring (drop 4 cs') = Inr (x', rest')" by simp
    from scanstring_u_intro [OF _ this, of uni] h(4) [of r'] r'(1) c'(1) x'(2)
    show ?thesis by auto
  qed
qed

lemma scanstring_sim:
  assumes "sim b s s'" and "scanstring s = Inr (x, rest)"
  shows "\<exists>x' rest'. scanstring s' = Inr (x', rest') \<and> sim b rest rest' \<and> (\<not> b \<longrightarrow> x' = x)"
proof (cases b)
  case True
  with scanstring_sim_True [of s s' x rest] assms show ?thesis by auto
next
  case False
  with assms(1) sim_False [of s s'] obtain w where w: "list_all is_ws w" "s' = s @ w" by auto
  from scanstring_append [OF assms(2), of w] w sim_append [OF w(1), of b rest]
  show ?thesis by auto
qed

lemma scan_constant_sim:
  assumes "sim b s s'" and "scan_constant s = Inr (v, rest)" and "delim rest"
  shows "\<exists>rest'. scan_constant s' = Inr (v, rest') \<and> sim b rest rest'"
proof -
  from scan_constant_stable [OF assms(2)] obtain lit where
    l: "s = lit @ rest" "0x60 \<notin> set lit" "\<And>t. delim t \<Longrightarrow> scan_constant (lit @ t) = Inr (v, t)"
    by blast
  from assms(1) l(1,2) sim_prefix [of b lit rest s'] obtain rest' where
    r: "s' = lit @ rest'" "sim b rest rest'" by auto
  from l(3) [OF sim_delim [OF r(2) assms(3)]] r show ?thesis by auto
qed

lemma scan_constant_first:
  assumes "scan_constant s = Inr (v, rest)"
  shows "\<exists>c cs. s = c # cs \<and> c \<noteq> 0x60"
proof -
  from scan_constant_stable [OF assms] obtain lit where
    "s = lit @ rest" "lit \<noteq> []" "0x60 \<notin> set lit" by blast
  then show ?thesis by (cases lit) auto
qed

lemma scan_once_first:
  assumes "scan_once s = Inr (v, rest)"
  shows "\<exists>c cs. s = c # cs \<and> c \<noteq> 0x60"
  using assms by (cases rule: scan_once_cases) (auto dest: scan_constant_first)

lemma scan_sim:
  "scan_once s = Inr (v, rest) \<Longrightarrow> delim rest \<Longrightarrow> sim b s s' \<Longrightarrow>
     \<exists>v' rest'. scan_once s' = Inr (v', rest') \<and> sim b rest rest' \<and> (\<not> b \<longrightarrow> v' = v)"
  "JSONArray_loop s1 = Inr (vs, rest1) \<Longrightarrow> sim b s1 s1' \<Longrightarrow>
     \<exists>vs' rest'. JSONArray_loop s1' = Inr (vs', rest') \<and> sim b rest1 rest' \<and> (\<not> b \<longrightarrow> vs' = vs)"
  "JSONObject_loop s2 = Inr (ps, rest2) \<Longrightarrow> sim b s2 s2' \<Longrightarrow>
     \<exists>ps' rest'. JSONObject_loop s2' = Inr (ps', rest') \<and> sim b rest2 rest' \<and> (\<not> b \<longrightarrow> ps' = ps)"
proof (induction s and s1 and s2 arbitrary: v rest s' and vs rest1 s1' and ps rest2 s2'
    rule: scan_once_JSONArray_loop_JSONObject_loop.induct)
  case (1 s)
  note sim = "1.prems"(3)
  from "1.prems"(1) show ?case
  proof (cases rule: scan_once_cases)
    case (str cs x)
    from sim str(1) sim_Cons [of b "0x22" cs s'] obtain cs' where
      c: "s' = 0x22 # cs'" "sim b cs cs'" by auto
    from scanstring_sim [OF c(2) str(2)] c(1) str(3) show ?thesis
      by (auto simp: scan_once_string)
  next
    case (empty_obj cs)
    from sim empty_obj(1) sim_Cons [of b "0x7B" cs s'] obtain cs' where
      c: "s' = 0x7B # cs'" "sim b cs cs'" by auto
    from skip_ws_sim [OF c(2) empty_obj(2)] obtain r' where
      "skip_ws cs' = 0x7D # r'" "sim b rest r'" by auto
    with c(1) empty_obj(3) show ?thesis by (auto simp: scan_once_object)
  next
    case (obj cs r pairs)
    from sim obj(1) sim_Cons [of b "0x7B" cs s'] obtain cs' where
      c: "s' = 0x7B # cs'" "sim b cs cs'" by auto
    from skip_ws_sim [OF c(2) obj(2)] obtain r' where
      r: "skip_ws cs' = 0x22 # r'" "sim b r r'" by auto
    from "1.IH"(1) [OF obj(1) _ _ obj(2) _ _ obj(3) r(2)] obtain ps' rest' where
      "JSONObject_loop r' = Inr (ps', rest')" "sim b rest rest'" "\<not> b \<longrightarrow> ps' = pairs"
      by auto
    with c(1) r(1) obj(4) show ?thesis by (auto simp: scan_once_object)
  next
    case (empty_arr cs)
    from sim empty_arr(1) sim_Cons [of b "0x5B" cs s'] obtain cs' where
      c: "s' = 0x5B # cs'" "sim b cs cs'" by auto
    from skip_ws_sim [OF c(2) empty_arr(2)] obtain r' where
      "skip_ws cs' = 0x5D # r'" "sim b rest r'" by auto
    with c(1) empty_arr(3) show ?thesis by (auto simp: scan_once_array)
  next
    case (arr cs q r vals)
    from sim arr(1) sim_Cons [of b "0x5B" cs s'] obtain cs' where
      c: "s' = 0x5B # cs'" "sim b cs cs'" by auto
    from arr(4) obtain v0 r0 where "scan_once (q # r) = Inr (v0, r0)"
      by (cases rule: JSONArray_loop_cases) auto
    from scan_once_first [OF this] have q: "q \<noteq> 0x60" by simp
    from skip_ws_sim [OF c(2) arr(2) q] obtain r' where
      r: "skip_ws cs' = q # r'" "sim b r r'" by auto
    from r(2) have "sim b (q # r) (q # r')" by (rule sim_keep)
    from "1.IH"(2) [OF arr(1) _ _ _ arr(2,3,4) this] obtain vs' rest' where
      "JSONArray_loop (q # r') = Inr (vs', rest')" "sim b rest rest'" "\<not> b \<longrightarrow> vs' = vals"
      by auto
    with c(1) r(1) arr(3,5) show ?thesis by (auto simp: scan_once_array)
  next
    case (const c cs)
    from scan_constant_first [OF const(5)] const(1) have "c \<noteq> 0x60" by simp
    with sim const(1) sim_Cons [of b c cs s'] obtain cs' where c': "s' = c # cs'" by auto
    from scan_constant_sim [OF sim const(5) "1.prems"(2)] c' const(2,3,4) show ?thesis
      by (auto simp: scan_once_constant)
  qed
next
  case (2 s)
  note sim = "2.prems"(2)
  from "2.prems"(1) show ?case
  proof (cases rule: JSONArray_loop_cases)
    case (last v r0)
    from skip_ws_delim [OF last(2)] have d: "delim r0" by simp
    from "2.IH"(1) [OF last(1) d sim] obtain v' r0' where
      v: "scan_once s1' = Inr (v', r0')" "sim b r0 r0'" "\<not> b \<longrightarrow> v' = v" by auto
    from skip_ws_sim [OF v(2) last(2)] obtain r' where
      r: "skip_ws r0' = 0x5D # r'" "sim b rest1 r'" by auto
    from JSONArray_loop_last [OF v(1) r(1)] r(2) v(3) last(3) show ?thesis by auto
  next
    case (more v r0 r vs0)
    from skip_ws_delim [OF more(2)] have d: "delim r0" by simp
    from "2.IH"(1) [OF more(1) d sim] obtain v' r0' where
      v: "scan_once s1' = Inr (v', r0')" "sim b r0 r0'" "\<not> b \<longrightarrow> v' = v" by auto
    from skip_ws_sim [OF v(2) more(2)] obtain r' where
      r: "skip_ws r0' = 0x2C # r'" "sim b r r'" by auto
    from more(3) obtain v1 r1 where "scan_once (skip_ws r) = Inr (v1, r1)"
      by (cases rule: JSONArray_loop_cases) auto
    from scan_once_first [OF this] obtain c1 cs1 where c1: "skip_ws r = c1 # cs1" "c1 \<noteq> 0x60"
      by auto
    from skip_ws_sim [OF r(2) c1] obtain cs1' where
      "skip_ws r' = c1 # cs1'" "sim b cs1 cs1'" by auto
    with c1(1) have s2: "sim b (skip_ws r) (skip_ws r')" by (auto intro: sim_keep)
    from "2.IH"(2) [OF more(1) refl more(2) _ _ more(3) s2] obtain vs' rest' where
      l: "JSONArray_loop (skip_ws r') = Inr (vs', rest')" "sim b rest1 rest'" "\<not> b \<longrightarrow> vs' = vs0"
      by auto
    from JSONArray_loop_more [OF v(1) r(1) l(1)] l(2,3) v(3) more(4) show ?thesis by auto
  qed
next
  case (3 s)
  note sim = "3.prems"(2)
  from "3.prems"(1) show ?case
  proof (cases rule: JSONObject_loop_cases)
    case (last key r1 r2 v r3)
    from scanstring_sim [OF sim last(1)] obtain key' r1' where
      k: "scanstring s2' = Inr (key', r1')" "sim b r1 r1'" "\<not> b \<longrightarrow> key' = key" by auto
    from skip_ws_sim [OF k(2) last(2)] obtain r2' where
      c: "skip_ws r1' = 0x3A # r2'" "sim b r2 r2'" by auto
    from scan_once_first [OF last(3)] obtain c1 cs1 where c1: "skip_ws r2 = c1 # cs1" "c1 \<noteq> 0x60"
      by auto
    from skip_ws_sim [OF c(2) c1] obtain cs1' where
      "skip_ws r2' = c1 # cs1'" "sim b cs1 cs1'" by auto
    with c1(1) have sv: "sim b (skip_ws r2) (skip_ws r2')" by (auto intro: sim_keep)
    from skip_ws_delim [OF last(4)] have d: "delim r3" by simp
    from "3.IH"(1) [OF last(1) refl last(2) _ last(3) d sv] obtain v' r3' where
      v: "scan_once (skip_ws r2') = Inr (v', r3')" "sim b r3 r3'" "\<not> b \<longrightarrow> v' = v" by auto
    from skip_ws_sim [OF v(2) last(4)] obtain r' where
      r: "skip_ws r3' = 0x7D # r'" "sim b rest2 r'" by auto
    from JSONObject_loop_last [OF k(1) c(1) v(1) r(1)] r(2) k(3) v(3) last(5) show ?thesis
      by auto
  next
    case (more key r1 r2 v r3 r4 r5 ps0)
    from scanstring_sim [OF sim more(1)] obtain key' r1' where
      k: "scanstring s2' = Inr (key', r1')" "sim b r1 r1'" "\<not> b \<longrightarrow> key' = key" by auto
    from skip_ws_sim [OF k(2) more(2)] obtain r2' where
      c: "skip_ws r1' = 0x3A # r2'" "sim b r2 r2'" by auto
    from scan_once_first [OF more(3)] obtain c1 cs1 where c1: "skip_ws r2 = c1 # cs1" "c1 \<noteq> 0x60"
      by auto
    from skip_ws_sim [OF c(2) c1] obtain cs1' where
      "skip_ws r2' = c1 # cs1'" "sim b cs1 cs1'" by auto
    with c1(1) have sv: "sim b (skip_ws r2) (skip_ws r2')" by (auto intro: sim_keep)
    from skip_ws_delim [OF more(4)] have d: "delim r3" by simp
    from "3.IH"(1) [OF more(1) refl more(2) _ more(3) d sv] obtain v' r3' where
      v: "scan_once (skip_ws r2') = Inr (v', r3')" "sim b r3 r3'" "\<not> b \<longrightarrow> v' = v" by auto
    from skip_ws_sim [OF v(2) more(4)] obtain r4' where
      r4: "skip_ws r3' = 0x2C # r4'" "sim b r4 r4'" by auto
    from skip_ws_sim [OF r4(2) more(5)] obtain r5' where
      r5: "skip_ws r4' = 0x22 # r5'" "sim b r5 r5'" by auto
    from "3.IH"(2) [OF more(1) refl more(2) _ more(3) refl more(4) _ _ more(5) _ more(6) r5(2)]
    obtain ps' rest' where
      l: "JSONObject_loop r5' = Inr (ps', rest')" "sim b rest2 rest'" "\<not> b \<longrightarrow> ps' = ps0"
      by auto
    from JSONObject_loop_more [OF k(1) c(1) v(1) r4(1) r5(1) l(1)] l(2,3) k(3) v(3) more(7)
    show ?thesis by auto
  qed
qed

lemma all_ws_delim: "skip_ws rest = [] \<Longrightarrow> delim rest"
  by (cases rest) (auto simp: skip_ws_def split: if_splits)

lemma json_loads_Inr:
  "json_loads s = Inr v \<longleftrightarrow>
     take 1 s \<noteq> [0xFEFF] \<and> (\<exists>rest. scan_once (skip_ws s) = Inr (v, rest) \<and> skip_ws rest = [])"
  by (auto simp: json_loads_def split: sum.splits if_splits)

text \<open>
  The decoder accepts a text related to one it accepts; with nothing dropped (only white
  space added at the end) the value is the same.
\<close>

lemma json_loads_sim:
  assumes "sim b s s'" and "json_loads s = Inr v"
  shows "\<exists>v'. json_loads s' = Inr v' \<and> (\<not> b \<longrightarrow> v' = v)"
proof -
  from assms(2) obtain rest where
    bom: "take 1 s \<noteq> [0xFEFF]" and so: "scan_once (skip_ws s) = Inr (v, rest)"
    and ws: "skip_ws rest = []"
    by (auto simp: json_loads_Inr)
  from scan_once_first [OF so] obtain c cs where c: "skip_ws s = c # cs" "c \<noteq> 0x60" by auto
  from skip_ws_sim [OF assms(1) c] obtain cs' where
    c': "skip_ws s' = c # cs'" "sim b cs cs'" by auto
  with c(1) have sk: "sim b (skip_ws s) (skip_ws s')" by (auto intro: sim_keep)
  from scan_sim(1) [OF so all_ws_delim [OF ws] sk] obtain v' rest' where
    v': "scan_once (skip_ws s') = Inr (v', rest')" "sim b rest rest'" "\<not> b \<longrightarrow> v' = v" by auto
  from sim_all_ws [OF v'(2) ws] have ws': "skip_ws rest' = []" .
  from c obtain x xs where x: "s = x # xs" "x \<noteq> 0x60"
    by (cases s) (auto simp: skip_ws_def is_ws_def split: if_splits)
  with assms(1) sim_Cons [of b x xs s'] obtain xs' where "s' = x # xs'" by auto
  with bom x(1) have "take 1 s' \<noteq> [0xFEFF]" by simp
  with v'(1,3) ws' show ?thesis by (auto simp: json_loads_Inr)
qed

lemma str_replace_sim:
  "old = 0x60 # p \<Longrightarrow> new = [] \<Longrightarrow> list_all plain p \<Longrightarrow> sim True s (str_replace old new s)"
proof (induction old new s rule: str_replace.induct)
  case (1 old new)
  then show ?case by (auto intro: sim_end)
next
  case (2 old new c cs)
  from "2.prems"(1) have ne: "old \<noteq> []" by simp
  define rest where "rest = drop (length old) (c # cs)"
  show ?case
  proof (cases "take (length old) (c # cs) = old")
    case True
    have "c # cs = take (length old) (c # cs) @ rest" by (simp add: rest_def)
    with True "2.prems"(1) have e: "c # cs = 0x60 # p @ rest" by simp
    from True ne "2.prems"(2) have r: "str_replace old new (c # cs) = str_replace old new rest"
      by (simp add: rest_def)
    from "2.IH"(2) [OF ne True "2.prems"] have "sim True rest (str_replace old new rest)"
      by (simp add: rest_def)
    from sim_drop [OF "2.prems"(3) this] show ?thesis
      unfolding r by (subst e)
  next
    case False
    with "2.IH"(3) [OF ne False "2.prems"] ne show ?thesis by (auto intro: sim_keep)
  qed
qed

lemma strip_fences_loads:
  assumes "json_loads t = Inr v"
  shows "\<exists>v'. json_loads (strip_fences t) = Inr v'"
proof -
  have p1: "list_all plain (ustr ''``json'')" and p2: "list_all plain (ustr ''``'')"
    by (simp_all add: ustr_def plain_def)
  have s1: "sim True t (str_replace (ustr ''```json'') [] t)"
    by (rule str_replace_sim [OF _ refl p1]) (simp add: ustr_def)
  have s2: "sim True (str_replace (ustr ''```json'') [] t) (strip_fences t)"
    unfolding strip_fences_def by (rule str_replace_sim [OF _ refl p2]) (simp add: ustr_def)
  from json_loads_sim [OF s1 assms] obtain v1 where
    "json_loads (str_replace (ustr ''```json'') [] t) = Inr v1" by auto
  from json_loads_sim [OF s2 this] show ?thesis by auto
qed

lemma take_whole_length: "take (length old) a = old \<Longrightarrow> length old \<le> length a"
proof -
  assume "take (length old) a = old"
  then have "length (take (length old) a) = length old" by simp
  then show ?thesis by (simp add: min_def split: if_splits)
qed

lemma take_separator:
  assumes "c \<notin> set old"
  shows "take (length old) (a @ c # b) = old \<longleftrightarrow> take (length old) a = old"
proof (cases "length old \<le> length a")
  case True
  then show ?thesis by simp
next
  case False
  then have "take (length old) (a @ c # b) = a @ c # take (length old - length a - 1) b"
    by (simp add: take_Cons')
  then have "c \<in> set (take (length old) (a @ c # b))" by simp
  with assms have "take (length old) (a @ c # b) \<noteq> old" by metis
  moreover from False have "take (length old) a \<noteq> old"
    using take_whole_length [of old a] by auto
  ultimately show ?thesis by simp
qed

lemma drop_separator:
  assumes "take (length old) a = old"
  shows "drop (length old) (a @ c # b) = drop (length old) a @ c # b"
proof -
  from assms have "length old \<le> length a" by (rule take_whole_length)
  then show ?thesis by simp
qed

lemma str_replace_separator:
  "new = [] \<Longrightarrow> old \<noteq> [] \<Longrightarrow> c \<notin> set old \<Longrightarrow>
     str_replace old new (a @ c # b) = str_replace old new a @ c # str_replace old new b"
proof (induction old new a rule: str_replace.induct)
  case (1 old new)
  from "1.prems"(2,3) have "take (length old) (c # b) \<noteq> old"
    by (cases old) auto
  with "1.prems" show ?case by simp
next
  case (2 old new x xs)
  define a where "a = x # xs"
  note m = take_separator [OF "2.prems"(3), of a b]
  have unfold: "\<And>s. s \<noteq> [] \<Longrightarrow> str_replace old new s =
      (if take (length old) s = old then str_replace old new (drop (length old) s)
       else hd s # str_replace old new (tl s))"
    using "2.prems"(1,2) by (case_tac s) simp_all
  have ne: "a \<noteq> []" "a @ c # b \<noteq> []" "hd (a @ c # b) = x" "tl (a @ c # b) = xs @ c # b"
    "hd a = x" "tl a = xs"
    by (simp_all add: a_def)
  show ?case
  proof (cases "take (length old) a = old")
    case True
    from "2.IH"(2) [OF "2.prems"(2) True [unfolded a_def] "2.prems"]
    have "str_replace old new (drop (length old) a @ c # b) =
        str_replace old new (drop (length old) a) @ c # str_replace old new b"
      by (simp add: a_def)
    with True m drop_separator [OF True, of c b] show ?thesis
      unfolding a_def [symmetric] append_Cons [symmetric]
      by (simp add: unfold [OF ne(1)] unfold [OF ne(2)])
  next
    case False
    from "2.IH"(3) [OF "2.prems"(2) False [unfolded a_def] "2.prems"]
    have "str_replace old new (xs @ c # b) = str_replace old new xs @ c # str_replace old new b" .
    with False m show ?thesis
      unfolding a_def [symmetric] append_Cons [symmetric]
      by (simp add: unfold [OF ne(1)] unfold [OF ne(2)] ne)
  qed
qed

lemma strip_fences_fenced:
  "strip_fences (ustr ''```json'' @ 0x0A # t @ 0x0A # ustr ''```'') = 0x0A # strip_fences t @ [0x0A]"
proof -
  let ?J = "ustr ''```json''" and ?F = "ustr ''```''"
  have n: "?J \<noteq> []" "?F \<noteq> []" "0x0A \<notin> set ?J" "0x0A \<notin> set ?F"
    by (simp_all add: ustr_def)
  have "str_replace ?J [] (?J @ 0x0A # t @ 0x0A # ?F) = str_replace ?J [] (0x0A # t @ 0x0A # ?F)"
    by (simp add: ustr_def)
  also have "\<dots> = str_replace ?J [] [] @ 0x0A # str_replace ?J [] (t @ 0x0A # ?F)"
    using str_replace_separator [OF refl n(1,3), of "[]" "t @ 0x0A # ?F"] by simp
  also have "\<dots> = 0x0A # str_replace ?J [] t @ 0x0A # str_replace ?J [] ?F"
    using str_replace_separator [OF refl n(1,3), of t ?F] n(1) by simp
  also have "str_replace ?J [] ?F = ?F"
    by (simp add: ustr_def)
  finally have 1: "str_replace ?J [] (?J @ 0x0A # t @ 0x0A # ?F) = 0x0A # str_replace ?J [] t @ 0x0A # ?F" .
  let ?u = "str_replace ?J [] t"
  have "str_replace ?F [] (0x0A # ?u @ 0x0A # ?F) = str_replace ?F [] [] @ 0x0A # str_replace ?F [] (?u @ 0x0A # ?F)"
    using str_replace_separator [OF refl n(2,4), of "[]" "?u @ 0x0A # ?F"] by simp
  also have "\<dots> = 0x0A # str_replace ?F [] ?u @ 0x0A # str_replace ?F [] ?F"
    using str_replace_separator [OF refl n(2,4), of ?u ?F] n(2) by simp
  also have "str_replace ?F [] ?F = []"
    by (simp add: ustr_def)
  finally have 2: "str_replace ?F [] (0x0A # ?u @ 0x0A # ?F) = 0x0A # str_replace ?F [] ?u @ [0x0A]" .
  show ?thesis
    unfolding strip_fences_def 1 2 ..
qed

lemma json_loads_leading_ws:
  assumes "is_ws c" and "json_loads s = Inr v"
  shows "json_loads (c # s) = Inr v"
proof -
  from assms(1) have "c \<noteq> 0xFEFF" by (auto simp: is_ws_def)
  with assms show ?thesis by (auto simp: json_loads_Inr skip_ws_def)
qed

lemma json_loads_trailing_ws:
  assumes "list_all is_ws w" and "json_loads s = Inr v"
  shows "json_loads (s @ w) = Inr v"
  using json_loads_sim [OF sim_append [OF assms(1), of False s] assms(2)] by simp

section \<open>The normalizer \<^verbatim>\<open>parse_llm_json\<close>\<close>

text \<open>The definitions that evaluate the model on a concrete text.\<close>

lemmas eval_defs =
  ustr_def json_loads_def skip_ws_def is_ws_def is_digit_def is_digit19_def
  scan_constant_def match_number_def digits_nat_def dict_of_pairs_def chunk_def
  hexval_def BACKSLASH_def expecting_value_def expecting_name_def expecting_colon_def
  expecting_comma_def unterminated_def invalid_uXXXX_def invalid_escape_def
  invalid_control_def strip_fences_def failure_object_def parse_except_def
  parse_llm_json_def str_strip_def isspace_def no_attribute_def error_response_def
  chat_except_def chat_def unstructured_def
  scan_once.simps JSONArray_loop.simps JSONObject_loop.simps scanstring.simps

text \<open>
  On a string the function decodes the text left by the two \<^verbatim>\<open>replace\<close> calls; when the
  decoder fails, the failure object carries that same text in \<^verbatim>\<open>raw_output\<close>.
\<close>

lemma parse_llm_json_str:
  "parse_llm_json (PStr raw) =
     (case json_loads (strip_fences raw) of
        Inl e \<Rightarrow> Inr (failure_object (PStr (strip_fences raw)))
      | Inr v \<Rightarrow> Inr v)"
  by (auto simp: parse_llm_json_def strip_fences_def parse_except_def
      split: sum.splits dest: json_loads_error)

text \<open>
  C1 (the failure object keeps the original raw text in \<^verbatim>\<open>raw_output\<close>, not the
  fence-stripped one): the code rebinds \<^verbatim>\<open>raw\<close> before it decodes, so the failure object holds
  the stripped text. On the fenced text \<^verbatim>\<open>```json\nnot json\n```\<close> the field is
  \<^verbatim>\<open>\nnot json\n\<close>.
\<close>

theorem parse_llm_json_raw_output_stripped:
  "parse_llm_json (PStr (ustr ''```json'' @ 0x0A # ustr ''not json'' @ 0x0A # ustr ''```'')) =
     Inr (PDict [(ustr ''answer'', PStr (ustr ''ERROR'')),
                 (ustr ''justification'', PStr (ustr ''LLM returned invalid JSON'')),
                 (ustr ''raw_output'', PStr (0x0A # ustr ''not json'' @ [0x0A]))])"
  by (simp add: eval_defs)

text \<open>
  C2 (the result is always a mapping; a text that decodes to another type falls back to the
  failure object): the code returns whatever \<^verbatim>\<open>json.loads\<close> returns. On \<^verbatim>\<open>[1]\<close> the result is
  the list.
\<close>

theorem parse_llm_json_returns_list:
  "parse_llm_json (PStr (ustr ''[1]'')) = Inr (PList [PInt 1])"
  by (simp add: eval_defs)

text \<open>
  C4: \<^verbatim>\<open>parse_llm_json\<close> is total on strings. For every string it returns a value; no
  exception leaves it.
\<close>

theorem parse_llm_json_total: "\<exists>v. parse_llm_json (PStr raw) = Inr v"
  by (simp add: parse_llm_json_str split: sum.splits)

text \<open>
  C5 (for every string the result has the keys \<^verbatim>\<open>answer\<close> and \<^verbatim>\<open>justification\<close>) fails as
  stated: a text that decodes is returned as decoded, whatever its keys. The text \<^verbatim>\<open>{}\<close>
  gives the empty dictionary.
\<close>

theorem parse_llm_json_empty_object:
  "parse_llm_json (PStr (ustr ''{}'')) = Inr (PDict [])
   \<and> \<not> has_key (PDict []) (ustr ''answer'')"
  by (simp add: eval_defs)

text \<open>
  C5, amended: for every string whose fence-stripped text does not decode, the result is a
  dictionary with the keys \<^verbatim>\<open>answer\<close> and \<^verbatim>\<open>justification\<close>.
\<close>

theorem parse_llm_json_fallback_keys:
  assumes "json_loads (strip_fences raw) = Inl e"
  shows "\<exists>d. parse_llm_json (PStr raw) = Inr (PDict d)
           \<and> has_key (PDict d) (ustr ''answer'') \<and> has_key (PDict d) (ustr ''justification'')"
  using assms by (simp add: parse_llm_json_str failure_object_def)

theorem parse_llm_json_fallback_keys_witness:
  "\<exists>d. parse_llm_json (PStr (ustr ''not json'')) = Inr (PDict d)
           \<and> has_key (PDict d) (ustr ''answer'') \<and> has_key (PDict d) (ustr ''justification'')"
proof -
  have h: "json_loads (strip_fences (ustr ''not json'')) = Inl expecting_value"
    by (simp add: eval_defs)
  show ?thesis by (rule parse_llm_json_fallback_keys [OF h])
qed

text \<open>
  C7: on \<^verbatim>\<open>not json at all\<close> the result is exactly the failure object with the three keys
  \<^verbatim>\<open>answer\<close>, \<^verbatim>\<open>justification\<close> and \<^verbatim>\<open>raw_output\<close>, the last one holding the input.
\<close>

theorem parse_llm_json_not_json_at_all:
  "parse_llm_json (PStr (ustr ''not json at all'')) =
     Inr (PDict [(ustr ''answer'', PStr (ustr ''ERROR'')),
                 (ustr ''justification'', PStr (ustr ''LLM returned invalid JSON'')),
                 (ustr ''raw_output'', PStr (ustr ''not json at all''))])"
  by (simp add: eval_defs)

subsection \<open>The round trip\<close>

lemma contains_prefix: "contains (p @ q) s \<Longrightarrow> contains p s"
proof (induction s)
  case Nil
  then show ?case by simp
next
  case (Cons c cs)
  from Cons.prems consider "take (length (p @ q)) (c # cs) = p @ q" | "contains (p @ q) cs"
    by auto
  then show ?case
  proof cases
    case 1
    then have "take (length p) (take (length (p @ q)) (c # cs)) = p" by simp
    then have "take (length p) (c # cs) = p" by (simp add: min_def)
    then show ?thesis by simp
  next
    case 2
    with Cons.IH show ?thesis by simp
  qed
qed

lemma str_replace_absent: "old \<noteq> [] \<Longrightarrow> \<not> contains old s \<Longrightarrow> str_replace old new s = s"
  by (induction old new s rule: str_replace.induct) auto

lemma strip_fences_absent:
  assumes "\<not> contains (ustr ''```'') s"
  shows "strip_fences s = s"
proof -
  have "ustr ''```json'' = ustr ''```'' @ ustr ''json''" by (simp add: ustr_def)
  with contains_prefix [of "ustr ''```''" "ustr ''json''" s] assms
  have "\<not> contains (ustr ''```json'') s" by auto
  with assms show ?thesis
    by (simp add: strip_fences_def str_replace_absent ustr_def)
qed

lemmas dumps_defs =
  int_repr_def encode_basestring_ascii_def escape_ascii_def hex4_def hexdigit_def
  scalar_def float_literal_def

text \<open>
  C6 (for every JSON mapping \<open>x\<close>, normalizing its encoding gives \<open>x\<close> back) fails as
  stated: the fence markers are removed wherever they occur, also inside a string of the
  object. The object \<^verbatim>\<open>{"answer": "```"}\<close> comes back with an empty answer.
\<close>

theorem round_trip_fence_in_value:
  "json_value (PDict [(ustr ''answer'', PStr (ustr ''```''))])
   \<and> parse_llm_json (PStr (json_dumps (PDict [(ustr ''answer'', PStr (ustr ''```''))]))) =
       Inr (PDict [(ustr ''answer'', PStr [])])
   \<and> parse_llm_json (PStr (json_dumps (PDict [(ustr ''answer'', PStr (ustr ''```''))]))) \<noteq>
       Inr (PDict [(ustr ''answer'', PStr (ustr ''```''))])"
  by (simp add: eval_defs dumps_defs)

text \<open>
  C6, amended: for every JSON mapping \<open>x\<close> whose encoding does not contain three
  consecutive backticks, normalizing the encoding of \<open>x\<close> returns \<open>x\<close>.
\<close>

theorem round_trip:
  assumes "json_value (PDict d)" and "\<not> contains (ustr ''```'') (json_dumps (PDict d))"
  shows "parse_llm_json (PStr (json_dumps (PDict d))) = Inr (PDict d)"
  using json_loads_json_dumps [OF assms(1)] strip_fences_absent [OF assms(2)]
  by (simp add: parse_llm_json_str)

theorem round_trip_witness:
  "parse_llm_json (PStr (json_dumps (PDict [(ustr ''answer'', PStr (ustr ''X'')),
                                            (ustr ''justification'', PStr (ustr ''Y''))]))) =
     Inr (PDict [(ustr ''answer'', PStr (ustr ''X'')), (ustr ''justification'', PStr (ustr ''Y''))])"
proof -
  let ?d = "[(ustr ''answer'', PStr (ustr ''X'')), (ustr ''justification'', PStr (ustr ''Y''))]"
  have h1: "json_value (PDict ?d)"
    by (simp add: ustr_def dumps_defs)
  have h2: "\<not> contains (ustr ''```'') (json_dumps (PDict ?d))"
    by (simp add: ustr_def dumps_defs)
  show ?thesis by (rule round_trip [OF h1 h2])
qed

subsection \<open>Fences around an object\<close>

text \<open>
  C9: for every text \<open>t\<close> that is a valid JSON object, wrapping \<open>t\<close> in the fence markers
  (the opening marker and a newline before, a newline and the closing marker after) and
  normalizing gives the same result as normalizing \<open>t\<close>.
\<close>

theorem fence_wrapping:
  assumes "json_loads t = Inr (PDict d)"
  shows "parse_llm_json (PStr (ustr ''```json'' @ 0x0A # t @ 0x0A # ustr ''```'')) =
         parse_llm_json (PStr t)"
proof -
  from strip_fences_loads [OF assms] obtain v' where v': "json_loads (strip_fences t) = Inr v'"
    by blast
  have "json_loads (strip_fences t @ [0x0A]) = Inr v'"
    by (rule json_loads_trailing_ws [OF _ v']) (simp add: is_ws_def)
  then have "json_loads (0x0A # strip_fences t @ [0x0A]) = Inr v'"
    by (rule json_loads_leading_ws [rotated]) (simp add: is_ws_def)
  with v' show ?thesis
    by (simp add: parse_llm_json_str strip_fences_fenced)
qed

theorem fence_wrapping_witness:
  "parse_llm_json (PStr (ustr ''```json'' @ 0x0A # answer_text @ 0x0A # ustr ''```'')) =
   parse_llm_json (PStr answer_text)"
proof -
  have h: "json_loads answer_text =
             Inr (PDict [(ustr ''answer'', PStr (ustr ''X'')), (ustr ''justification'', PStr (ustr ''Y''))])"
    by (simp add: answer_text_def eval_defs)
  show ?thesis by (rule fence_wrapping [OF h])
qed

section \<open>The handler \<^verbatim>\<open>chat\<close>\<close>

lemma dict_get_map_of:
  "dict_get d k dflt = (case map_of d k of None \<Rightarrow> dflt | Some v \<Rightarrow> v)"
  by (induction d) auto

lemma dict_get_absent: "\<not> has_key (PDict d) k \<Longrightarrow> dict_get d k dflt = dflt"
  by (induction d) auto

lemma str_strip_Nil: "str_strip [] = []"
  by (simp add: str_strip_def)

lemma py_strip_not_str: "\<not> is_str v \<Longrightarrow> py_strip v = Inl (no_attribute v (ustr ''strip''))"
  by (cases v) simp_all

lemma py_get_not_dict: "\<not> is_dict v \<Longrightarrow> py_get v k dflt = Inl (no_attribute v (ustr ''get''))"
  by (cases v) simp_all

text \<open>
  C3 (a request whose payload is absent, is not a structured object, lacks the question or
  has a question that trims to the empty string is answered 400 \<^verbatim>\<open>Empty question\<close>, and the
  pipeline is not called) fails as stated for the first two: \<^verbatim>\<open>data.get\<close> raises on a payload
  that is no dictionary, and the handler answers 500. With no payload (\<^verbatim>\<open>get_json\<close> returns
  \<^verbatim>\<open>None\<close>):
\<close>

theorem chat_absent_payload:
  "fst (chat (\<lambda>q. Inr (PStr [])) (Inr PNone) []) =
     Inr (error_response
            (0x27 # ustr ''NoneType'' @ 0x27 # ustr '' object has no attribute '' @ 0x27 # ustr ''get'' @ [0x27])
            500)
   \<and> fst (chat (\<lambda>q. Inr (PStr [])) (Inr PNone) []) \<noteq> Inr (error_response (ustr ''Empty question'') 400)"
  by (simp add: eval_defs)

text \<open>
  C3, amended: a request whose payload is a dictionary that lacks the question, or whose
  question is a string that trims to the empty string, is answered 400 with the body
  \<^verbatim>\<open>{"error": "Empty question"}\<close>; in these cases, and when the payload is absent or is not a
  dictionary, the pipeline is not called.
\<close>

theorem chat_empty_question:
  assumes "\<not> has_key (PDict d) (ustr ''question'')
           \<or> (\<exists>q. dict_get d (ustr ''question'') (PStr []) = PStr q \<and> str_strip q = [])"
    and "unstructured get_json"
  shows "chat answer_question (Inr (PDict d)) calls =
           (Inr (error_response (ustr ''Empty question'') 400), calls)
         \<and> snd (chat answer_question get_json calls) = calls"
proof
  from assms(1) obtain q where "dict_get d (ustr ''question'') (PStr []) = PStr q" "str_strip q = []"
    using dict_get_absent [of d "ustr ''question''" "PStr []"] str_strip_Nil by blast
  then show "chat answer_question (Inr (PDict d)) calls =
           (Inr (error_response (ustr ''Empty question'') 400), calls)"
    by (simp add: chat_def)
next
  from assms(2) show "snd (chat answer_question get_json calls) = calls"
    by (auto simp: chat_def unstructured_def py_get_not_dict split: sum.splits)
qed

theorem chat_empty_question_witness:
  "chat (\<lambda>q. Inr (PStr [])) (Inr (PDict [(ustr ''question'', PStr (ustr ''  ''))])) [] =
           (Inr (error_response (ustr ''Empty question'') 400), [])
   \<and> snd (chat (\<lambda>q. Inr (PStr [])) (Inr PNone) []) = []"
proof -
  have h1: "\<not> has_key (PDict [(ustr ''question'', PStr (ustr ''  ''))]) (ustr ''question'')
           \<or> (\<exists>q. dict_get [(ustr ''question'', PStr (ustr ''  ''))] (ustr ''question'') (PStr []) = PStr q
                  \<and> str_strip q = [])"
    by (simp add: eval_defs)
  have h2: "unstructured (Inr PNone)"
    by (simp add: unstructured_def)
  show ?thesis by (rule chat_empty_question [OF h1 h2])
qed

text \<open>
  C8: when the question trims to a non-empty string and the pipeline returns a text that,
  its fences stripped, is a JSON object, the handler answers 200 with the trimmed question
  and that object, and the pipeline has been called once, with the trimmed question.
\<close>

theorem chat_fenced_answer:
  assumes "map_of d (ustr ''question'') = Some (PStr q)"
    and "str_strip q \<noteq> []"
    and "answer_question (str_strip q) = Inr (PStr raw)"
    and "json_loads (strip_fences raw) = Inr (PDict obj)"
  shows "chat answer_question (Inr (PDict d)) calls =
           (Inr \<lparr>body = PDict [(ustr ''question'', PStr (str_strip q)), (ustr ''result'', PDict obj)],
                 status = 200\<rparr>,
            calls @ [str_strip q])"
  using assms by (simp add: chat_def dict_get_map_of parse_llm_json_str)

theorem chat_fenced_answer_witness:
  "chat (\<lambda>q. Inr (PStr fenced_answer))
        (Inr (PDict [(ustr ''question'', PStr (ustr ''What is EBITDA?''))])) [] =
     (Inr \<lparr>body = PDict [(ustr ''question'', PStr (ustr ''What is EBITDA?'')),
                          (ustr ''result'',
                           PDict [(ustr ''answer'', PStr (ustr ''X'')),
                                  (ustr ''justification'', PStr (ustr ''Y''))])],
           status = 200\<rparr>,
      [ustr ''What is EBITDA?''])"
proof -
  let ?q = "ustr ''What is EBITDA?''"
  have h1: "map_of [(ustr ''question'', PStr ?q)] (ustr ''question'') = Some (PStr ?q)"
    by simp
  have strip: "str_strip ?q = ?q"
    by (simp add: eval_defs)
  have h2: "str_strip ?q \<noteq> []"
    by (simp add: eval_defs)
  have h3: "(\<lambda>q. Inr (PStr fenced_answer)) (str_strip ?q) = Inr (PStr fenced_answer)"
    by simp
  have h4: "json_loads (strip_fences fenced_answer) =
              Inr (PDict [(ustr ''answer'', PStr (ustr ''X'')), (ustr ''justification'', PStr (ustr ''Y''))])"
    by (simp add: fenced_answer_def eval_defs)
  from chat_fenced_answer [OF h1 h2 h3 h4, of "[]"] strip
  show ?thesis by simp
qed

text \<open>
  C10: when the payload is a dictionary whose question is not a string, \<^verbatim>\<open>strip\<close> raises
  an \<^verbatim>\<open>AttributeError\<close> and the handler answers 500 with its message, not 400; the pipeline
  is not called.
\<close>

theorem chat_non_string_question:
  assumes "map_of d (ustr ''question'') = Some v" and "\<not> is_str v"
  shows "chat answer_question (Inr (PDict d)) calls =
           (Inr (error_response
                   (0x27 # type_name v @ 0x27 # ustr '' object has no attribute '' @ 0x27 # ustr ''strip'' @ [0x27])
                   500),
            calls)"
  using assms
  by (simp add: chat_def dict_get_map_of py_strip_not_str chat_except_def no_attribute_def)

theorem chat_non_string_question_witness:
  "chat (\<lambda>q. Inr (PStr [])) (Inr (PDict [(ustr ''question'', PInt 5)])) [] =
           (Inr (error_response
                   (0x27 # ustr ''int'' @ 0x27 # ustr '' object has no attribute '' @ 0x27 # ustr ''strip'' @ [0x27])
                   500),
            [])"
proof -
  have h1: "map_of [(ustr ''question'', PInt 5)] (ustr ''question'') = Some (PInt 5)"
    by simp
  have h2: "\<not> is_str (PInt 5)"
    by simp
  from chat_non_string_question [OF h1 h2, of "\<lambda>q. Inr (PStr [])" "[]"]
  show ?thesis by simp
qed

end
